theory Spec2Isabelle
  imports Complex_Main "HOL-Library.Log_Nat" "HOL-Library.Sublist" "HOL-Library.Multiset"
begin

section \<open>Number values\<close>

text \<open>
  A JavaScript Number is an IEEE 754 binary64 value.  The finite non-zero values and
  \<open>+0\<close> are written \<open>Fin q\<close> with \<open>q\<close> the exact rational value; \<open>-0\<close> is a value
  of its own.  Every arithmetic result is rounded to the nearest binary64 value, ties to
  even (\<open>dbl\<close>, "the Number value for" of ECMAScript 6.1.6.1).
\<close>

datatype jsnum = NaN | PosInf | NegInf | NegZero | Fin rat

definition pow2 :: "int \<Rightarrow> rat" where
  "pow2 e = (if 0 \<le> e then 2 ^ nat e else 1 / 2 ^ nat (- e))"

definition pow10 :: "int \<Rightarrow> rat" where
  "pow10 e = (if 0 \<le> e then 10 ^ nat e else 1 / 10 ^ nat (- e))"

text \<open>\<open>ilog2 q\<close> is the binary exponent \<open>e\<close> with \<open>2^e \<le> |q| < 2^(e+1)\<close>, for \<open>q \<noteq> 0\<close>.\<close>

definition ilog2 :: "rat \<Rightarrow> int" where
  "ilog2 q = (let a = \<bar>q\<bar> in
     if 1 \<le> a then bitlen \<lfloor>a\<rfloor> - 1
     else (let l = bitlen \<lfloor>1 / a\<rfloor> in if a = pow2 (1 - l) then 1 - l else - l))"

definition round_half_even :: "rat \<Rightarrow> int" where
  "round_half_even x = (let f = \<lfloor>x\<rfloor>; d = x - of_int f in
     if d < 1 / 2 then f else if 1 / 2 < d then f + 1 else if even f then f else f + 1)"

text \<open>The spacing of the binary64 values around \<open>q\<close>: 53 significant bits, and the
  subnormal spacing \<open>2^-1074\<close> below \<open>2^-1022\<close>.\<close>

definition ulp :: "rat \<Rightarrow> rat" where
  "ulp q = pow2 (max (ilog2 q) (- 1022) - 52)"

definition is_double :: "rat \<Rightarrow> bool" where
  "is_double q = (q = 0 \<or> (of_int \<lfloor>q / ulp q\<rfloor> = q / ulp q \<and> ilog2 q < 1024))"

text \<open>Rounding to the nearest binary64 value.  The rounded significand \<open>m\<close> lies
  between \<open>-2^53\<close> and \<open>2^53\<close>; the result overflows to an infinity exactly when it
  reaches \<open>2^1024\<close>, and a non-zero \<open>q\<close> that rounds to zero keeps its sign.\<close>

definition dbl :: "rat \<Rightarrow> jsnum" where
  "dbl q = (if q = 0 then Fin 0 else
     let e = max (ilog2 q) (- 1022); u = pow2 (e - 52); m = round_half_even (q / u) in
     if 1023 < e \<or> (e = 1023 \<and> \<bar>m\<bar> = 2 ^ 53) then (if 0 < q then PosInf else NegInf)
     else if m = 0 then (if 0 < q then Fin 0 else NegZero)
     else Fin (of_int m * u))"

definition isNaN :: "jsnum \<Rightarrow> bool" where
  "isNaN n = (n = NaN)"

fun neg :: "jsnum \<Rightarrow> jsnum" where
  "neg NaN = NaN"
| "neg PosInf = NegInf"
| "neg NegInf = PosInf"
| "neg NegZero = Fin 0"
| "neg (Fin q) = (if q = 0 then NegZero else Fin (- q))"

text \<open>\<open>Math.abs\<close>.\<close>

fun js_abs :: "jsnum \<Rightarrow> jsnum" where
  "js_abs NaN = NaN"
| "js_abs PosInf = PosInf"
| "js_abs NegInf = PosInf"
| "js_abs NegZero = Fin 0"
| "js_abs (Fin q) = Fin \<bar>q\<bar>"

text \<open>\<open>Number.isInteger\<close>: finite and integral.\<close>

fun isInteger :: "jsnum \<Rightarrow> bool" where
  "isInteger NegZero = True"
| "isInteger (Fin q) = (of_int \<lfloor>q\<rfloor> = q)"
| "isInteger _ = False"

text \<open>The comparison \<open>x < y\<close> of two Numbers (Number::lessThan): false when either
  is NaN; the two zeros are equal.\<close>

fun num_lt :: "jsnum \<Rightarrow> jsnum \<Rightarrow> bool" where
  "num_lt NaN _ = False"
| "num_lt _ NaN = False"
| "num_lt PosInf _ = False"
| "num_lt _ PosInf = True"
| "num_lt _ NegInf = False"
| "num_lt NegInf _ = True"
| "num_lt NegZero NegZero = False"
| "num_lt NegZero (Fin b) = (0 < b)"
| "num_lt (Fin a) NegZero = (a < 0)"
| "num_lt (Fin a) (Fin b) = (a < b)"

text \<open>\<open>x >= y\<close> is \<open>!(x < y)\<close> unless an operand is NaN.\<close>

definition num_ge :: "jsnum \<Rightarrow> jsnum \<Rightarrow> bool" where
  "num_ge x y = (x \<noteq> NaN \<and> y \<noteq> NaN \<and> \<not> num_lt x y)"

text \<open>Number::add.\<close>

fun js_add :: "jsnum \<Rightarrow> jsnum \<Rightarrow> jsnum" where
  "js_add NaN _ = NaN"
| "js_add _ NaN = NaN"
| "js_add PosInf NegInf = NaN"
| "js_add NegInf PosInf = NaN"
| "js_add PosInf _ = PosInf"
| "js_add NegInf _ = NegInf"
| "js_add _ PosInf = PosInf"
| "js_add _ NegInf = NegInf"
| "js_add NegZero NegZero = NegZero"
| "js_add NegZero (Fin b) = Fin b"
| "js_add (Fin a) NegZero = Fin a"
| "js_add (Fin a) (Fin b) = (if a = 0 then Fin b else if b = 0 then Fin a else dbl (a + b))"

text \<open>Number::multiply, on finite operands of which the second is not a zero (all
  the page needs: \<open>(i + 1) * 0.05\<close>).\<close>

fun js_mul :: "jsnum \<Rightarrow> jsnum \<Rightarrow> jsnum" where
  "js_mul (Fin a) (Fin b) = dbl (a * b)"
| "js_mul _ _ = NaN"

section \<open>Strings\<close>

text \<open>
  A string is a list of code units; the model covers the code units below 256
  (U+0000 to U+00FF), which \<open>toLowerCase\<close> and \<open>trim\<close> map into themselves.
\<close>

definition code_unit :: "char \<Rightarrow> nat" where
  "code_unit c = of_char c"

text \<open>\<open>String.prototype.toLowerCase\<close>: A to Z, and the capital letters of U+00C0 to
  U+00DE (U+00D7 is the multiplication sign).\<close>

definition lower_char :: "char \<Rightarrow> char" where
  "lower_char c = (let n = code_unit c in
     if (65 \<le> n \<and> n \<le> 90) \<or> (192 \<le> n \<and> n \<le> 222 \<and> n \<noteq> 215) then char_of (n + 32) else c)"

definition toLowerCase :: "string \<Rightarrow> string" where
  "toLowerCase s = map lower_char s"

text \<open>White space and line terminators: TAB, LF, VT, FF, CR, SP, NBSP.\<close>

definition is_space :: "char \<Rightarrow> bool" where
  "is_space c = (code_unit c \<in> {9, 10, 11, 12, 13, 32, 160})"

definition trim :: "string \<Rightarrow> string" where
  "trim s = rev (dropWhile is_space (rev (dropWhile is_space s)))"

text \<open>\<open>s.includes(q)\<close>: \<open>q\<close> occurs in \<open>s\<close> as a contiguous run.\<close>

fun js_includes :: "string \<Rightarrow> string \<Rightarrow> bool" where
  "js_includes [] q = (q = [])"
| "js_includes (c # s) q = (prefix q (c # s) \<or> js_includes s q)"

text \<open>\<open>s < t\<close> on two strings (IsLessThan): a proper prefix is smaller, otherwise
  the first differing code unit decides.\<close>

fun str_lt :: "string \<Rightarrow> string \<Rightarrow> bool" where
  "str_lt _ [] = False"
| "str_lt [] (_ # _) = True"
| "str_lt (a # s) (b # t) = (code_unit a < code_unit b \<or> (a = b \<and> str_lt s t))"

subsection \<open>Decimal digits\<close>

definition is_digit :: "char \<Rightarrow> bool" where
  "is_digit c = (48 \<le> code_unit c \<and> code_unit c \<le> 57)"

definition digit_char :: "int \<Rightarrow> char" where
  "digit_char d = ''0123456789'' ! nat d"

text \<open>The decimal digits of a non-negative integer.\<close>

function digits10 :: "int \<Rightarrow> string" where
  "digits10 n = (if n < 10 then [digit_char n] else digits10 (n div 10) @ [digit_char (n mod 10)])"
  by pat_completeness auto
termination
  by (relation "measure nat") auto

declare digits10.simps [simp del]

definition strip_zeros :: "string \<Rightarrow> string" where
  "strip_zeros s = rev (dropWhile (\<lambda>c. c = CHR ''0'') (rev s))"

definition pad_zeros :: "nat \<Rightarrow> string \<Rightarrow> string" where
  "pad_zeros w s = replicate (w - length s) (CHR ''0'') @ s"

text \<open>Rounding a non-negative rational to an integer, ties upwards.\<close>

definition round_half_up :: "rat \<Rightarrow> int" where
  "round_half_up x = \<lfloor>x + 1 / 2\<rfloor>"

section \<open>Number to string\<close>

subsection \<open>The shortest decimal\<close>

text \<open>
  Both \<open>String\<close> and \<open>toLocaleString\<close> start from the shortest decimal that reads back
  as the Number: the engine prints \<open>0.1\<close> for the binary64 value next to one tenth, not
  the 55 digits of its exact value.

  \<open>decimal_exponent x\<close> is the \<open>n\<close> with \<open>10^(n-1) \<le> x < 10^n\<close>, for \<open>x > 0\<close>.
\<close>

definition decimal_exponent :: "rat \<Rightarrow> int" where
  "decimal_exponent x =
     (if 1 \<le> x then int (length (digits10 \<lfloor>x\<rfloor>))
      else (let l = int (length (digits10 \<lfloor>1 / x\<rfloor>)) in if x = pow10 (1 - l) then 2 - l else 1 - l))"

text \<open>The \<open>k\<close>-digit decimals next to \<open>x\<close> that round to \<open>x\<close>, the nearer one first.\<close>

definition candidates :: "rat \<Rightarrow> int \<Rightarrow> nat \<Rightarrow> int list" where
  "candidates x n k = (let sc = pow10 (n - int k); lo = \<lfloor>x / sc\<rfloor>; hi = lo + 1;
       near = (if x - of_int lo * sc < of_int hi * sc - x then [lo, hi]
               else if of_int hi * sc - x < x - of_int lo * sc then [hi, lo]
               else if even lo then [lo, hi] else [hi, lo])
     in filter (\<lambda>s. dbl (of_int s * sc) = Fin x) near)"

text \<open>The shortest decimal \<open>s * 10^p\<close> that reads back as \<open>x > 0\<close>: the least number
  of digits for which a candidate exists, and the candidate nearest to \<open>x\<close>.  At most 17
  digits are needed for a binary64 value.\<close>

definition shortest_decimal :: "rat \<Rightarrow> int \<times> int" where
  "shortest_decimal x = (let n = decimal_exponent x in
     case find (\<lambda>k. candidates x n k \<noteq> []) [1..<18] of
       None \<Rightarrow> (round_half_up (x / pow10 (n - 17)), n - 17)
     | Some k \<Rightarrow> (hd (candidates x n k), n - int k))"

definition decimal_value :: "rat \<Rightarrow> rat" where
  "decimal_value x = (case shortest_decimal x of (s, p) \<Rightarrow> of_int s * pow10 p)"

subsection \<open>\<open>Number.prototype.toLocaleString\<close>\<close>

text \<open>
  \<open>n.toLocaleString(undefined, { maximumFractionDigits: mx })\<close> in the locale en-US
  (ECMA-402, decimal style, as the engine's ICU library computes it): the shortest
  decimal that reads back as \<open>n\<close> is rounded to \<open>mx\<close> fraction digits, ties away from
  zero; the minimum number of fraction digits is 0, so trailing zeros of the fraction
  are dropped, and the decimal point with them; the integer digits are grouped in threes
  by commas.  So \<open>(1.005).toLocaleString(undefined, { maximumFractionDigits: 2 })\<close> is
  \<open>1.01\<close>, although the binary64 value lies below 1.005.
\<close>

fun group_rev :: "string \<Rightarrow> string" where
  "group_rev (a # b # c # d # ds) = a # b # c # CHR '','' # group_rev (d # ds)"
| "group_rev ds = ds"

definition group3 :: "string \<Rightarrow> string" where
  "group3 ds = rev (group_rev (rev ds))"

definition fraction_part :: "nat \<Rightarrow> int \<Rightarrow> string" where
  "fraction_part mx n = strip_zeros (if mx = 0 then [] else pad_zeros mx (digits10 (n mod 10 ^ mx)))"

definition format_decimal :: "nat \<Rightarrow> rat \<Rightarrow> string" where
  "format_decimal mx x = (let n = round_half_up (x * 10 ^ mx); fs = fraction_part mx n in
     group3 (digits10 (n div 10 ^ mx)) @ (if fs = [] then [] else CHR ''.'' # fs))"

text \<open>The infinity sign U+221E lies outside the code units of the model; it is
  written as the three bytes of its UTF-8 form.\<close>

definition infinity_sign :: string where
  "infinity_sign = [CHR 0xE2, CHR 0x88, CHR 0x9E]"

fun toLocaleString :: "nat \<Rightarrow> jsnum \<Rightarrow> string" where
  "toLocaleString mx NaN = ''NaN''"
| "toLocaleString mx PosInf = infinity_sign"
| "toLocaleString mx NegInf = CHR ''-'' # infinity_sign"
| "toLocaleString mx NegZero = ''-0''"
| "toLocaleString mx (Fin q) =
     (if q = 0 then ''0''
      else if q < 0 then CHR ''-'' # format_decimal mx (decimal_value (- q))
      else format_decimal mx (decimal_value q))"

text \<open>The number of characters behind the decimal point of a rendered number.\<close>

definition fraction_digits :: "string \<Rightarrow> nat" where
  "fraction_digits s =
     (if CHR ''.'' \<in> set s then length (takeWhile (\<lambda>c. c \<noteq> CHR ''.'') (rev s)) else 0)"

subsection \<open>\<open>Number::toString\<close>\<close>

text \<open>The digits of the shortest decimal, without trailing zeros, and the position
  \<open>n\<close> of the decimal point: the value is \<open>0.d1d2...dk * 10^n\<close>.\<close>

definition shortest_digits :: "rat \<Rightarrow> string \<times> int" where
  "shortest_digits x = (case shortest_decimal x of (s, p) \<Rightarrow>
     (strip_zeros (digits10 s), p + int (length (digits10 s))))"

definition exponent_string :: "int \<Rightarrow> string" where
  "exponent_string c = (if c < 0 then CHR ''-'' # digits10 (- c) else CHR ''+'' # digits10 c)"

definition positive_to_string :: "rat \<Rightarrow> string" where
  "positive_to_string x = (let (ds, n) = shortest_digits x; k = int (length ds) in
     if - 5 \<le> n \<and> n \<le> 21 then
       (if k \<le> n then ds @ replicate (nat (n - k)) (CHR ''0'')
        else if 0 < n then take (nat n) ds @ CHR ''.'' # drop (nat n) ds
        else ''0.'' @ replicate (nat (- n)) (CHR ''0'') @ ds)
     else if k = 1 then ds @ CHR ''e'' # exponent_string (n - 1)
     else hd ds # CHR ''.'' # tl ds @ CHR ''e'' # exponent_string (n - 1))"

fun number_to_string :: "jsnum \<Rightarrow> string" where
  "number_to_string NaN = ''NaN''"
| "number_to_string PosInf = ''Infinity''"
| "number_to_string NegInf = ''-Infinity''"
| "number_to_string NegZero = ''0''"
| "number_to_string (Fin q) =
     (if q = 0 then ''0'' else if q < 0 then CHR ''-'' # positive_to_string (- q) else positive_to_string q)"

subsection \<open>\<open>Number.prototype.toFixed\<close>\<close>

text \<open>\<open>x.toFixed(f)\<close>: exactly \<open>f\<close> fraction digits, ties upwards in magnitude, no
  grouping; values of magnitude \<open>10^21\<close> and more are printed as by \<open>String\<close>.\<close>

definition fixed_decimal :: "nat \<Rightarrow> rat \<Rightarrow> string" where
  "fixed_decimal f x = (let m = pad_zeros (f + 1) (digits10 (round_half_up (x * 10 ^ f))) in
     if f = 0 then m else take (length m - f) m @ CHR ''.'' # drop (length m - f) m)"

fun toFixed :: "nat \<Rightarrow> jsnum \<Rightarrow> string" where
  "toFixed f NegZero = fixed_decimal f 0"
| "toFixed f (Fin q) =
     (if 10 ^ 21 \<le> \<bar>q\<bar> then number_to_string (Fin q)
      else if q < 0 then CHR ''-'' # fixed_decimal f (- q) else fixed_decimal f q)"
| "toFixed f n = number_to_string n"

section \<open>String to number\<close>

text \<open>
  \<open>StringToNumber\<close>: white space is stripped at both ends; the empty string is
  \<open>+0\<close>; a hexadecimal, octal or binary integer literal carries no sign; a decimal
  literal may carry a sign, a fraction and an exponent; \<open>Infinity\<close> may carry a sign;
  every other string is NaN.
\<close>

definition digit_value :: "char \<Rightarrow> int" where
  "digit_value c = (let n = int (code_unit c) in
     if 48 \<le> n \<and> n \<le> 57 then n - 48
     else if 97 \<le> n \<and> n \<le> 102 then n - 87
     else if 65 \<le> n \<and> n \<le> 70 then n - 55
     else 16)"

definition digits_value :: "int \<Rightarrow> string \<Rightarrow> int" where
  "digits_value base ds = foldl (\<lambda>a c. a * base + digit_value c) 0 ds"

definition radix_literal :: "int \<Rightarrow> string \<Rightarrow> jsnum" where
  "radix_literal base ds =
     (if ds \<noteq> [] \<and> (\<forall>c \<in> set ds. digit_value c < base) then dbl (of_int (digits_value base ds)) else NaN)"

definition exponent_part :: "string \<Rightarrow> int option" where
  "exponent_part s = (case s of
       [] \<Rightarrow> Some 0
     | c # r \<Rightarrow>
        if c = CHR ''e'' \<or> c = CHR ''E'' then
          (let (sg, ds) = (case r of
                 [] \<Rightarrow> (1, [])
               | d # r' \<Rightarrow> if d = CHR ''+'' then (1, r') else if d = CHR ''-'' then (- 1, r') else (1, r))
           in if ds \<noteq> [] \<and> (\<forall>d \<in> set ds. is_digit d) then Some (sg * digits_value 10 ds) else None)
        else None)"

definition unsigned_decimal :: "string \<Rightarrow> jsnum" where
  "unsigned_decimal s =
     (if s = ''Infinity'' then PosInf
      else let ip = takeWhile is_digit s; r = dropWhile is_digit s;
               fp = (case r of [] \<Rightarrow> [] | c # r' \<Rightarrow> if c = CHR ''.'' then takeWhile is_digit r' else []);
               t = (case r of [] \<Rightarrow> [] | c # r' \<Rightarrow> if c = CHR ''.'' then dropWhile is_digit r' else r)
           in if ip = [] \<and> fp = [] then NaN
              else (case exponent_part t of
                      None \<Rightarrow> NaN
                    | Some e \<Rightarrow>
                        dbl ((of_int (digits_value 10 ip) + of_int (digits_value 10 fp) / 10 ^ length fp) * pow10 e)))"

definition string_to_number :: "string \<Rightarrow> jsnum" where
  "string_to_number s = (case trim s of
       [] \<Rightarrow> Fin 0
     | c # r \<Rightarrow>
        if c = CHR ''+'' then unsigned_decimal r
        else if c = CHR ''-'' then neg (unsigned_decimal r)
        else if c = CHR ''0'' \<and> r \<noteq> [] \<and> hd r \<in> set ''xX'' then radix_literal 16 (tl r)
        else if c = CHR ''0'' \<and> r \<noteq> [] \<and> hd r \<in> set ''oO'' then radix_literal 8 (tl r)
        else if c = CHR ''0'' \<and> r \<noteq> [] \<and> hd r \<in> set ''bB'' then radix_literal 2 (tl r)
        else unsigned_decimal (c # r))"

section \<open>Field values and rows\<close>

text \<open>
  The rows arrive from \<open>JSON.parse\<close>.  A field holds a primitive value or an object
  or array; \<open>JUndefined\<close> is what reading an absent field yields.  Of an object or
  array the page observes only its conversion to a primitive, which for a parsed JSON
  value is the string its \<open>toString\<close> gives (\<open>[object Object]\<close>, or the joined
  elements of an array): \<open>JObj s\<close> is an object or array with that string.
\<close>

datatype jsval = JUndefined | JNull | JBool bool | JNum jsnum | JStr string | JObj string

text \<open>\<open>Number(v)\<close>.\<close>

fun to_number :: "jsval \<Rightarrow> jsnum" where
  "to_number JUndefined = NaN"
| "to_number JNull = Fin 0"
| "to_number (JBool b) = (if b then Fin 1 else Fin 0)"
| "to_number (JNum n) = n"
| "to_number (JStr s) = string_to_number s"
| "to_number (JObj s) = string_to_number s"

text \<open>\<open>String(v)\<close>.\<close>

fun to_string :: "jsval \<Rightarrow> string" where
  "to_string JUndefined = ''undefined''"
| "to_string JNull = ''null''"
| "to_string (JBool b) = (if b then ''true'' else ''false'')"
| "to_string (JNum n) = number_to_string n"
| "to_string (JStr s) = s"
| "to_string (JObj s) = s"

section \<open>The row formatter\<close>

text \<open>\<open>v === null || v === undefined || v === ""\<close>.\<close>

definition is_blank :: "jsval \<Rightarrow> bool" where
  "is_blank v = (v = JNull \<or> v = JUndefined \<or> v = JStr [])"

text \<open>\<open>n.toLocaleString()\<close> without options has at most 3 fraction digits.\<close>

definition fmt :: "jsval \<Rightarrow> string" where
  "fmt v = (if is_blank v then []
     else let n = to_number v in
       if isNaN n then to_string v
       else if num_ge (js_abs n) (Fin 1000) \<and> isInteger n then toLocaleString 3 n
       else if num_ge (js_abs n) (Fin 100) then toLocaleString 2 n
       else toLocaleString 4 n)"

definition money :: "jsval \<Rightarrow> string" where
  "money v = (if is_blank v then []
     else let n = to_number v in
       if isNaN n then to_string v
       else CHR ''$'' # toLocaleString 2 n)"

text \<open>A row is an object: a finite map from field names to values.  Reading a field
  the row does not have yields \<open>undefined\<close>.  (The field names the page reads, \<open>symbol\<close>,
  \<open>UnderlyingPrice\<close>, \<open>Shares\<close> and the delta keys, are not names of
  \<open>Object.prototype\<close>.)\<close>

type_synonym row = "string \<rightharpoonup> jsval"

definition get :: "row \<Rightarrow> string \<Rightarrow> jsval" where
  "get r k = (case r k of None \<Rightarrow> JUndefined | Some v \<Rightarrow> v)"

text \<open>\<open>v ?? d\<close>.\<close>

definition nullish :: "jsval \<Rightarrow> jsval \<Rightarrow> jsval" where
  "nullish v d = (if v = JNull \<or> v = JUndefined then d else v)"

section \<open>Schema\<close>

text \<open>\<open>Array.from({ length: 10 }, (_, i) => (i + 1) * 0.05)\<close>; the literal \<open>0.05\<close>
  is the binary64 value nearest to 1/20.\<close>

definition DELTAS :: "jsnum list" where
  "DELTAS = map (\<lambda>i. js_mul (Fin (of_nat (i + 1))) (dbl (5 / 100))) [0..<10]"

text \<open>\<open>d.toFixed(2)\<close>.\<close>

definition delta_key :: "jsnum \<Rightarrow> string" where
  "delta_key d = toFixed 2 d"

definition delta_keys :: "string list" where
  "delta_keys = map delta_key DELTAS"

definition W_SYMBOL :: int where "W_SYMBOL = 86"
definition W_UNDER :: int where "W_UNDER = 52"
definition W_SHARES :: int where "W_SHARES = 39"
definition STICKY_TOTAL :: int where "STICKY_TOTAL = W_SYMBOL + W_UNDER + W_SHARES"

section \<open>Filter and sort\<close>

datatype error = TypeError

text \<open>
  The filter callback \<open>(r) => r.symbol?.toLowerCase().includes(q)\<close>.  The optional
  chain yields \<open>undefined\<close> (falsy) when \<open>symbol\<close> is \<open>null\<close> or \<open>undefined\<close>.  On a
  value that is not a string, \<open>toLowerCase\<close> is not a function and the call throws.
\<close>

fun symbol_matches :: "string \<Rightarrow> jsval \<Rightarrow> error + bool" where
  "symbol_matches q JUndefined = Inr False"
| "symbol_matches q JNull = Inr False"
| "symbol_matches q (JStr s) = Inr (js_includes (toLowerCase s) q)"
| "symbol_matches q _ = Inl TypeError"

text \<open>\<open>Array.prototype.filter\<close> with a callback that may throw: the first exception
  ends the call.\<close>

fun array_filter :: "('a \<Rightarrow> error + bool) \<Rightarrow> 'a list \<Rightarrow> error + 'a list" where
  "array_filter p [] = Inr []"
| "array_filter p (x # xs) =
     (case p x of
        Inl e \<Rightarrow> Inl e
      | Inr b \<Rightarrow> (case array_filter p xs of
                   Inl e \<Rightarrow> Inl e
                 | Inr ys \<Rightarrow> Inr (if b then x # ys else ys)))"

text \<open>Lines 80 to 82: the rows themselves when the trimmed query is empty.\<close>

definition filter_step :: "row list \<Rightarrow> string \<Rightarrow> error + row list" where
  "filter_step rows query = (let q = toLowerCase (trim query) in
     if q = [] then Inr rows
     else array_filter (\<lambda>r. symbol_matches q (get r ''symbol'')) rows)"

datatype dir = Asc | Desc

text \<open>The comparison value: \<open>Number.isNaN(an) ? String(av) : an\<close>.\<close>

datatype comp = CNum jsnum | CStr string

definition comp_value :: "jsval \<Rightarrow> comp" where
  "comp_value v = (let n = to_number v in if isNaN n then CStr (to_string v) else CNum n)"

fun comp_number :: "comp \<Rightarrow> jsnum" where
  "comp_number (CNum n) = n"
| "comp_number (CStr s) = string_to_number s"

text \<open>\<open>a < b\<close> on comparison values: two strings compare by code units; otherwise
  both operands are converted to Numbers.\<close>

fun js_lt :: "comp \<Rightarrow> comp \<Rightarrow> bool" where
  "js_lt (CStr s) (CStr t) = str_lt s t"
| "js_lt a b = num_lt (comp_number a) (comp_number b)"

text \<open>The comparator of lines 83 to 93; \<open>a > b\<close> is \<open>b < a\<close>.\<close>

definition compare_rows :: "string \<Rightarrow> dir \<Rightarrow> row \<Rightarrow> row \<Rightarrow> int" where
  "compare_rows sortKey sortDir a b =
     (let aComp = comp_value (get a sortKey); bComp = comp_value (get b sortKey) in
      if js_lt aComp bComp then (if sortDir = Asc then - 1 else 1)
      else if js_lt bComp aComp then (if sortDir = Asc then 1 else - 1)
      else 0)"

text \<open>
  \<open>Array.prototype.sort\<close> with a comparator.  ECMAScript requires the sort to be
  stable and leaves the algorithm open; the model is the stable insertion sort: an
  element moves behind exactly the elements the comparator puts strictly before it.
\<close>

fun sort_insert :: "('a \<Rightarrow> 'a \<Rightarrow> int) \<Rightarrow> 'a \<Rightarrow> 'a list \<Rightarrow> 'a list" where
  "sort_insert cmp x [] = [x]"
| "sort_insert cmp x (y # ys) = (if 0 < cmp x y then y # sort_insert cmp x ys else x # y # ys)"

definition array_sort :: "('a \<Rightarrow> 'a \<Rightarrow> int) \<Rightarrow> 'a list \<Rightarrow> 'a list" where
  "array_sort cmp xs = foldr (sort_insert cmp) xs []"

definition sort_step :: "string \<Rightarrow> dir \<Rightarrow> row list \<Rightarrow> row list" where
  "sort_step sortKey sortDir out = array_sort (compare_rows sortKey sortDir) out"

subsection \<open>Arrays in the store\<close>

text \<open>
  Arrays are mutable objects behind references.  \<open>filter\<close> and the spread
  \<open>[...out]\<close> allocate a new array; \<open>sort\<close> sorts the array it is called on in place.
\<close>

record store =
  arrays :: "nat \<rightharpoonup> row list"
  next_ref :: nat

definition deref :: "store \<Rightarrow> nat \<Rightarrow> row list" where
  "deref s a = (case arrays s a of None \<Rightarrow> [] | Some xs \<Rightarrow> xs)"

definition alloc :: "store \<Rightarrow> row list \<Rightarrow> nat \<times> store" where
  "alloc s xs = (next_ref s, s\<lparr>arrays := (arrays s)(next_ref s \<mapsto> xs), next_ref := Suc (next_ref s)\<rparr>)"

definition sort_in_place :: "(row \<Rightarrow> row \<Rightarrow> int) \<Rightarrow> store \<Rightarrow> nat \<Rightarrow> store" where
  "sort_in_place cmp s a = s\<lparr>arrays := (arrays s)(a \<mapsto> array_sort cmp (deref s a))\<rparr>"

text \<open>The body of the \<open>filteredSorted\<close> memo, lines 79 to 95, on the array behind
  \<open>rows\<close>: the outcome (the reference of \<open>sorted\<close>, or the exception) and the store
  afterwards.\<close>

definition filteredSorted_store ::
  "store \<Rightarrow> nat \<Rightarrow> string \<Rightarrow> string \<Rightarrow> dir \<Rightarrow> (error + nat) \<times> store" where
  "filteredSorted_store s rows query sortKey sortDir =
     (let q = toLowerCase (trim query) in
      case (if q = [] then Inr (rows, s)
            else (case array_filter (\<lambda>r. symbol_matches q (get r ''symbol'')) (deref s rows) of
                    Inl e \<Rightarrow> Inl e
                  | Inr ys \<Rightarrow> Inr (alloc s ys))) of
        Inl e \<Rightarrow> (Inl e, s)
      | Inr (out, s1) \<Rightarrow>
          (let (sorted, s2) = alloc s1 (deref s1 out) in
           (Inr sorted, sort_in_place (compare_rows sortKey sortDir) s2 sorted)))"

text \<open>The visible rows as a value: the memo run on a store that holds just \<open>rows\<close>.\<close>

definition filteredSorted :: "row list \<Rightarrow> string \<Rightarrow> string \<Rightarrow> dir \<Rightarrow> error + row list" where
  "filteredSorted rows query sortKey sortDir =
     (case filteredSorted_store \<lparr>arrays = [0 \<mapsto> rows], next_ref = 1\<rparr> 0 query sortKey sortDir of
        (Inl e, _) \<Rightarrow> Inl e
      | (Inr a, s) \<Rightarrow> Inr (deref s a))"

section \<open>Totals\<close>

type_synonym totals = "string \<rightharpoonup> jsnum"

text \<open>\<open>DELTAS.forEach((d) => (totals[d.toFixed(2)] = 0))\<close>.\<close>

definition init_totals :: totals where
  "init_totals = foldl (\<lambda>t d. t(delta_key d \<mapsto> Fin 0)) Map.empty DELTAS"

text \<open>Reading \<open>totals[k]\<close> as an operand of \<open>+=\<close>: an absent key reads \<open>undefined\<close>,
  which is NaN as a Number.\<close>

definition read_total :: "totals \<Rightarrow> string \<Rightarrow> jsnum" where
  "read_total t k = (case t k of None \<Rightarrow> NaN | Some x \<Rightarrow> x)"

text \<open>\<open>Number(r[key] ?? 0)\<close> for the net field of the delta key \<open>k\<close>.\<close>

definition net_value :: "row \<Rightarrow> string \<Rightarrow> jsnum" where
  "net_value r k = to_number (nullish (get r (k @ ''N'')) (JNum (Fin 0)))"

text \<open>The body of the inner loop, lines 111 to 113, for the delta key \<open>k = d.toFixed(2)\<close>.\<close>

definition add_key :: "row \<Rightarrow> totals \<Rightarrow> string \<Rightarrow> totals" where
  "add_key r t k =
     (let val = net_value r k in
      if \<not> isNaN val then t(k \<mapsto> js_add (read_total t k) val) else t)"

definition add_delta :: "row \<Rightarrow> totals \<Rightarrow> jsnum \<Rightarrow> totals" where
  "add_delta r t d = add_key r t (delta_key d)"

definition add_row :: "totals \<Rightarrow> row \<Rightarrow> totals" where
  "add_row t r = foldl (add_delta r) t DELTAS"

definition netTotalsByDelta :: "row list \<Rightarrow> totals" where
  "netTotalsByDelta visible = foldl add_row init_totals visible"

text \<open>The totals cell of a delta group: \<open>money(netTotalsByDelta[d.toFixed(2)] ?? 0)\<close>.\<close>

definition totals_cell :: "totals \<Rightarrow> jsnum \<Rightarrow> string" where
  "totals_cell t d = money (case t (delta_key d) of None \<Rightarrow> JNum (Fin 0) | Some x \<Rightarrow> JNum x)"

section \<open>The page\<close>

text \<open>
  The state of the component: the four \<open>useState\<close> cells, the fetch started by the
  mount effect that has not settled yet, the dependency \<open>rows.length\<close> the auto-scroll
  effect saw when it last ran (\<open>None\<close> before the first render), and the positions
  passed to \<open>scrollTo\<close> so far, the latest first.
\<close>

record page =
  rows :: "row list"
  query :: string
  sortKey :: string
  sortDir :: dir
  fetch_pending :: bool
  scroll_dep :: "nat option"
  scrolls :: "int list"

text \<open>What happens to the page: the fetch settles (with the rows when the response
  is a JSON array, with \<open>None\<close> when it is anything else or the request fails), the
  user edits the query, the user clicks a sortable header.\<close>

datatype event = FetchSettled "row list option" | QueryInput string | HeaderClick string

definition toggleSort :: "string \<Rightarrow> page \<Rightarrow> page" where
  "toggleSort key p =
     (if sortKey p = key then p\<lparr>sortDir := (if sortDir p = Asc then Desc else Asc)\<rparr>
      else p\<lparr>sortKey := key, sortDir := Asc\<rparr>)"

text \<open>
  The body of the auto-scroll effect, lines 68 to 75.  The scroll container is
  mounted; the header \<open>th[data-delta="0.15"]\<close> exists when a delta key is \<open>0.15\<close>;
  \<open>offsetLeft\<close> is its layout offset.  The callback given to
  \<open>requestAnimationFrame\<close> is taken to run before the next event.
\<close>

definition auto_scroll :: "int \<Rightarrow> page \<Rightarrow> page" where
  "auto_scroll offsetLeft p =
     (if length (rows p) = 0 then p
      else if ''0.15'' \<notin> set delta_keys then p
      else p\<lparr>scrolls := max 0 (offsetLeft - STICKY_TOTAL - 8) # scrolls p\<rparr>)"

text \<open>After a render the effect runs when its dependency \<open>rows.length\<close> differs from
  the one of its last run, and on the first render.\<close>

definition after_render :: "int \<Rightarrow> page \<Rightarrow> page" where
  "after_render offsetLeft p =
     (if scroll_dep p = Some (length (rows p)) then p
      else auto_scroll offsetLeft (p\<lparr>scroll_dep := Some (length (rows p))\<rparr>))"

definition handle :: "event \<Rightarrow> page \<Rightarrow> page" where
  "handle ev p = (case ev of
       FetchSettled r \<Rightarrow>
         (if fetch_pending p
          then p\<lparr>rows := (case r of Some data \<Rightarrow> data | None \<Rightarrow> []), fetch_pending := False\<rparr>
          else p)
     | QueryInput s \<Rightarrow> p\<lparr>query := s\<rparr>
     | HeaderClick key \<Rightarrow> toggleSort key p)"

definition step :: "int \<Rightarrow> page \<Rightarrow> event \<Rightarrow> page" where
  "step offsetLeft p ev = after_render offsetLeft (handle ev p)"

definition mount :: "int \<Rightarrow> page" where
  "mount offsetLeft = after_render offsetLeft
     \<lparr>rows = [], query = [], sortKey = ''symbol'', sortDir = Asc,
      fetch_pending = True, scroll_dep = None, scrolls = []\<rparr>"

definition run :: "int \<Rightarrow> event list \<Rightarrow> page" where
  "run offsetLeft evs = foldl (step offsetLeft) (mount offsetLeft) evs"

section \<open>Derived notions\<close>

text \<open>The running sum of one delta key over the visible rows, as the two loops of
  lines 109 to 115 build it: a net value that is NaN is skipped, every other one is
  added.  Lemma \<open>netTotals_key\<close> below shows that this is the entry of the totals.\<close>

definition accumulate :: "jsnum \<Rightarrow> jsnum \<Rightarrow> jsnum" where
  "accumulate acc val = (if isNaN val then acc else js_add acc val)"

definition net_sum :: "row list \<Rightarrow> string \<Rightarrow> jsnum" where
  "net_sum visible k = foldl (\<lambda>acc r. accumulate acc (net_value r k)) (Fin 0) visible"


text \<open>The rows whose comparison values under a sort key are all Numbers, or all
  strings.\<close>

fun is_number_comp :: "comp \<Rightarrow> bool" where
  "is_number_comp (CNum n) = True"
| "is_number_comp (CStr s) = False"

definition same_kind :: "string \<Rightarrow> row list \<Rightarrow> bool" where
  "same_kind K R =
     (list_all (\<lambda>r. is_number_comp (comp_value (get r K))) R \<or>
      list_all (\<lambda>r. \<not> is_number_comp (comp_value (get r K))) R)"


text \<open>A number stored in a field is a binary64 value.\<close>

fun value_ok :: "jsval \<Rightarrow> bool" where
  "value_ok (JNum (Fin q)) = is_double q"
| "value_ok v = True"

text \<open>Every binary64 value is a multiple of the least subnormal \<open>2^-1074\<close>; a running
  sum is such a multiple and never \<open>-0\<close>.\<close>

definition on_grid :: "rat \<Rightarrow> bool" where
  "on_grid q = (q * 2 ^ 1074 \<in> \<int>)"

fun grid_ok :: "jsnum \<Rightarrow> bool" where
  "grid_ok (Fin q) = on_grid q"
| "grid_ok n = True"

definition sum_ok :: "jsnum \<Rightarrow> bool" where
  "sum_ok n = (n \<noteq> NegZero \<and> grid_ok n)"

section \<open>Rounding to binary64\<close>

lemma pow2_power_int: "pow2 e = power_int 2 e"
  by (simp add: pow2_def power_int_def power_one_over inverse_eq_divide)

lemma pow2_pos: "0 < pow2 e"
  by (simp add: pow2_power_int)

lemma pow2_add: "pow2 (a + b) = pow2 a * pow2 b"
  by (simp add: pow2_power_int power_int_add)

lemma pow2_nat: "0 \<le> e \<Longrightarrow> pow2 e = of_int (2 ^ nat e)"
  by (simp add: pow2_def)

lemma pow2_mono: "a \<le> b \<Longrightarrow> pow2 a \<le> pow2 b"
  unfolding pow2_power_int by (rule power_int_increasing) simp_all

lemma round_half_even_int: "round_half_even (of_int m) = m"
  by (simp add: round_half_even_def)

lemma round_half_even_cases: "round_half_even x = \<lfloor>x\<rfloor> \<or> round_half_even x = \<lfloor>x\<rfloor> + 1"
  by (simp add: round_half_even_def Let_def)

lemma round_half_even_nonzero:
  assumes "1 \<le> \<bar>x\<bar>"
  shows "round_half_even x \<noteq> 0"
proof (cases "0 \<le> x")
  case True
  with assms have "1 \<le> \<lfloor>x\<rfloor>" by (simp add: le_floor_iff)
  with round_half_even_cases[of x] show ?thesis by linarith
next
  case False
  with assms have x: "x \<le> - 1" by simp
  then have f: "\<lfloor>x\<rfloor> \<le> - 1" by (simp add: floor_le_iff)
  show ?thesis
  proof (cases "\<lfloor>x\<rfloor> = - 1")
    case True
    then have "of_int \<lfloor>x\<rfloor> = (- 1 :: rat)" by simp
    moreover have "of_int \<lfloor>x\<rfloor> \<le> x" by simp
    ultimately have "x = of_int (- 1)" using x by linarith
    then show ?thesis by (simp only: round_half_even_int)
  next
    case False
    with f have "\<lfloor>x\<rfloor> \<le> - 2" by linarith
    with round_half_even_cases[of x] show ?thesis by linarith
  qed
qed

lemma ilog2_lower:
  assumes "q \<noteq> 0"
  shows "pow2 (ilog2 q) \<le> \<bar>q\<bar>"
proof (cases "1 \<le> \<bar>q\<bar>")
  case True
  then have p: "0 < \<lfloor>\<bar>q\<bar>\<rfloor>" by (simp add: le_floor_iff less_le_trans[OF zero_less_one])
  have l: "1 \<le> bitlen \<lfloor>\<bar>q\<bar>\<rfloor>" using p bitlen_eq_zero_iff[of "\<lfloor>\<bar>q\<bar>\<rfloor>"] bitlen_nonneg[of "\<lfloor>\<bar>q\<bar>\<rfloor>"] by linarith
  from bitlen_bounds[OF p] have "2 ^ nat (bitlen \<lfloor>\<bar>q\<bar>\<rfloor> - 1) \<le> \<lfloor>\<bar>q\<bar>\<rfloor>" by simp
  then have "(of_int (2 ^ nat (bitlen \<lfloor>\<bar>q\<bar>\<rfloor> - 1)) :: rat) \<le> of_int \<lfloor>\<bar>q\<bar>\<rfloor>"
    by (simp only: of_int_le_iff)
  also have "\<dots> \<le> \<bar>q\<bar>" by simp
  finally have "pow2 (bitlen \<lfloor>\<bar>q\<bar>\<rfloor> - 1) \<le> \<bar>q\<bar>" using l by (simp add: pow2_nat)
  then show ?thesis using True by (simp add: ilog2_def Let_def)
next
  case False
  then have lt: "\<bar>q\<bar> < 1" by simp
  have pos: "0 < \<bar>q\<bar>" using assms by simp
  let ?l = "bitlen \<lfloor>1 / \<bar>q\<bar>\<rfloor>"
  show ?thesis
  proof (cases "\<bar>q\<bar> = pow2 (1 - ?l)")
    case True
    then show ?thesis using lt by (simp add: ilog2_def Let_def)
  next
    case False
    have "1 < 1 / \<bar>q\<bar>" using lt pos by simp
    then have p: "0 < \<lfloor>1 / \<bar>q\<bar>\<rfloor>" by (simp add: less_floor_iff)
    then have l: "0 \<le> ?l" by (simp add: bitlen_nonneg)
    from bitlen_bounds[OF p] have "\<lfloor>1 / \<bar>q\<bar>\<rfloor> + 1 \<le> 2 ^ nat ?l" by simp
    then have "(of_int (\<lfloor>1 / \<bar>q\<bar>\<rfloor> + 1) :: rat) \<le> of_int (2 ^ nat ?l)" by (simp only: of_int_le_iff)
    moreover have "1 / \<bar>q\<bar> < of_int (\<lfloor>1 / \<bar>q\<bar>\<rfloor> + 1)"
      using floor_correct[of "1 / \<bar>q\<bar>"] by simp
    ultimately have "1 / \<bar>q\<bar> < 2 ^ nat ?l" by simp
    then have "1 < 2 ^ nat ?l * \<bar>q\<bar>" using pos by (simp add: pos_divide_less_eq)
    then have "1 / 2 ^ nat ?l \<le> \<bar>q\<bar>" by (simp add: pos_divide_le_eq mult.commute)
    moreover have "pow2 (- ?l) = 1 / 2 ^ nat ?l" using l by (simp add: pow2_def)
    ultimately show ?thesis using lt False by (simp add: ilog2_def Let_def)
  qed
qed

lemma ilog2_int:
  assumes "n \<noteq> 0"
  shows "ilog2 (of_int n) = bitlen \<bar>n\<bar> - 1"
proof -
  have "\<bar>of_int n :: rat\<bar> = of_int \<bar>n\<bar>" by simp
  moreover have "(1 :: rat) \<le> of_int \<bar>n\<bar>" using assms by (simp add: of_int_1_le_iff)
  ultimately show ?thesis by (simp add: ilog2_def Let_def del: of_int_abs)
qed

lemma pow2_inverse: "1 / pow2 e = pow2 (- e)"
  by (simp add: pow2_power_int power_int_minus_divide)

lemma dbl_int:
  assumes "\<bar>n\<bar> < 2 ^ 53"
  shows "dbl (of_int n) = Fin (of_int n)"
proof (cases "n = 0")
  case True
  then show ?thesis by (simp add: dbl_def)
next
  case False
  define e where "e = bitlen \<bar>n\<bar> - 1"
  have "bitlen \<bar>n\<bar> \<le> 53" using assms bitlen_le_iff_power[of "\<bar>n\<bar>" 53] by simp
  moreover have "bitlen \<bar>n\<bar> \<noteq> 0" using False bitlen_eq_zero_iff[of "\<bar>n\<bar>"] by simp
  ultimately have e: "0 \<le> e" "e \<le> 52" using bitlen_nonneg[of "\<bar>n\<bar>"] by (simp_all add: e_def)
  have il: "max (ilog2 (of_int n)) (- 1022) = e"
    using e by (simp add: ilog2_int[OF False] e_def)
  have "of_int n / pow2 (e - 52) = of_int n * (1 / pow2 (e - 52))" by simp
  also have "\<dots> = of_int n * pow2 (52 - e)" by (simp only: pow2_inverse minus_diff_eq)
  also have "\<dots> = of_int (n * 2 ^ nat (52 - e))" using e by (simp add: pow2_nat)
  finally have d: "of_int n / pow2 (e - 52) = of_int (n * 2 ^ nat (52 - e))" .
  have m: "round_half_even (of_int n / pow2 (e - 52)) = n * 2 ^ nat (52 - e)"
    by (simp only: d round_half_even_int)
  have nz: "n * 2 ^ nat (52 - e) \<noteq> 0" using False by simp
  have "(of_int (n * 2 ^ nat (52 - e)) :: rat) * pow2 (e - 52) = of_int n / pow2 (e - 52) * pow2 (e - 52)"
    by (simp only: d)
  also have "\<dots> = of_int n" using pow2_pos[of "e - 52"] by simp
  finally have mu: "(of_int (n * 2 ^ nat (52 - e)) :: rat) * pow2 (e - 52) = of_int n" .
  have "dbl (of_int n) = Fin (of_int (n * 2 ^ nat (52 - e)) * pow2 (e - 52))"
    unfolding dbl_def Let_def il m using False e nz by simp
  then show ?thesis by (simp only: mu)
qed

lemma js_add_int:
  assumes "\<bar>a + b\<bar> < 2 ^ 53"
  shows "js_add (Fin (of_int a)) (Fin (of_int b)) = Fin (of_int (a + b))"
  using dbl_int[OF assms] by simp

lemma on_grid_0: "on_grid 0"
  by (simp add: on_grid_def)

lemma on_grid_add: "on_grid a \<Longrightarrow> on_grid b \<Longrightarrow> on_grid (a + b)"
  by (simp add: on_grid_def distrib_right)

lemma on_grid_minus: "on_grid a \<Longrightarrow> on_grid (- a)"
  by (simp add: on_grid_def)

lemma on_grid_scaled:
  assumes "- 1022 \<le> e"
  shows "on_grid (of_int m * pow2 (e - 52))"
proof -
  have eq: "e - 52 + 1074 = e + 1022" by simp
  have "pow2 (e - 52) * 2 ^ 1074 = pow2 (e - 52) * pow2 1074" by (simp add: pow2_def)
  also have "\<dots> = pow2 (e - 52 + 1074)" by (rule pow2_add[symmetric])
  also have "\<dots> = pow2 (e + 1022)" by (simp only: eq)
  also have "\<dots> = of_int (2 ^ nat (e + 1022))" using assms by (simp add: pow2_nat)
  finally have "of_int m * pow2 (e - 52) * 2 ^ 1074 = (of_int (m * 2 ^ nat (e + 1022)) :: rat)"
    by (simp add: mult.assoc)
  then show ?thesis unfolding on_grid_def by (simp only: Ints_of_int)
qed

lemma is_double_on_grid:
  assumes "is_double q"
  shows "on_grid q"
proof (cases "q = 0")
  case True
  then show ?thesis by (simp add: on_grid_0)
next
  case False
  define e where "e = max (ilog2 q) (- 1022)"
  from assms False have "of_int \<lfloor>q / pow2 (e - 52)\<rfloor> = q / pow2 (e - 52)"
    by (simp add: is_double_def ulp_def e_def)
  moreover have "q = q / pow2 (e - 52) * pow2 (e - 52)"
    using pow2_pos[of "e - 52"] by simp
  ultimately have "q = of_int \<lfloor>q / pow2 (e - 52)\<rfloor> * pow2 (e - 52)"
    by (simp only:)
  moreover have "on_grid (of_int \<lfloor>q / pow2 (e - 52)\<rfloor> * pow2 (e - 52))"
    by (rule on_grid_scaled) (simp add: e_def)
  ultimately show ?thesis by simp
qed

lemma on_grid_abs_ge:
  assumes "on_grid q" "q \<noteq> 0"
  shows "pow2 (- 1074) \<le> \<bar>q\<bar>"
proof -
  from assms(1) obtain k :: int where k: "q * 2 ^ 1074 = of_int k"
    unfolding on_grid_def by (auto elim: Ints_cases)
  with assms(2) have "k \<noteq> 0" by auto
  then have "(1 :: rat) \<le> \<bar>of_int k\<bar>" by (simp add: of_int_1_le_iff del: of_int_abs flip: of_int_abs)
  then have "1 \<le> \<bar>q\<bar> * 2 ^ 1074" using k by (simp add: abs_mult flip: k)
  then have "1 / 2 ^ 1074 \<le> \<bar>q\<bar>" by (simp add: pos_divide_le_eq)
  then show ?thesis by (simp add: pow2_def)
qed

lemma pow2_strict_mono: "a < b \<Longrightarrow> pow2 a < pow2 b"
  by (simp add: pow2_power_int power_int_strict_increasing)

lemma ilog2_upper:
  assumes "q \<noteq> 0"
  shows "\<bar>q\<bar> < pow2 (ilog2 q + 1)"
proof (cases "1 \<le> \<bar>q\<bar>")
  case True
  then have p: "0 < \<lfloor>\<bar>q\<bar>\<rfloor>" by (simp add: le_floor_iff less_le_trans[OF zero_less_one])
  have l: "0 \<le> bitlen \<lfloor>\<bar>q\<bar>\<rfloor>" by (rule bitlen_nonneg)
  from bitlen_bounds[OF p] have "\<lfloor>\<bar>q\<bar>\<rfloor> + 1 \<le> 2 ^ nat (bitlen \<lfloor>\<bar>q\<bar>\<rfloor>)" by simp
  then have "(of_int (\<lfloor>\<bar>q\<bar>\<rfloor> + 1) :: rat) \<le> of_int (2 ^ nat (bitlen \<lfloor>\<bar>q\<bar>\<rfloor>))"
    by (simp only: of_int_le_iff)
  moreover have "\<bar>q\<bar> < of_int (\<lfloor>\<bar>q\<bar>\<rfloor> + 1)" using floor_correct[of "\<bar>q\<bar>"] by simp
  ultimately have "\<bar>q\<bar> < of_int (2 ^ nat (bitlen \<lfloor>\<bar>q\<bar>\<rfloor>))" by (rule less_le_trans[rotated])
  then have "\<bar>q\<bar> < pow2 (bitlen \<lfloor>\<bar>q\<bar>\<rfloor>)" using l by (simp add: pow2_nat)
  then show ?thesis using True by (simp add: ilog2_def Let_def)
next
  case False
  then have lt: "\<bar>q\<bar> < 1" by simp
  have pos: "0 < \<bar>q\<bar>" using assms by simp
  let ?l = "bitlen \<lfloor>1 / \<bar>q\<bar>\<rfloor>"
  show ?thesis
  proof (cases "\<bar>q\<bar> = pow2 (1 - ?l)")
    case True
    have "pow2 (1 - ?l) < pow2 (1 - ?l + 1)" by (rule pow2_strict_mono) simp
    then show ?thesis using lt True by (simp add: ilog2_def Let_def)
  next
    case False
    have "1 < 1 / \<bar>q\<bar>" using lt pos by simp
    then have p: "0 < \<lfloor>1 / \<bar>q\<bar>\<rfloor>" by (simp add: less_floor_iff)
    then have l: "1 \<le> ?l" using bitlen_eq_zero_iff[of "\<lfloor>1 / \<bar>q\<bar>\<rfloor>"] bitlen_nonneg[of "\<lfloor>1 / \<bar>q\<bar>\<rfloor>"] by linarith
    from bitlen_bounds[OF p] have "2 ^ nat (?l - 1) \<le> \<lfloor>1 / \<bar>q\<bar>\<rfloor>" by simp
    then have "(of_int (2 ^ nat (?l - 1)) :: rat) \<le> of_int \<lfloor>1 / \<bar>q\<bar>\<rfloor>" by (simp only: of_int_le_iff)
    also have "\<dots> \<le> 1 / \<bar>q\<bar>" by (rule of_int_floor_le)
    finally have "pow2 (?l - 1) \<le> 1 / \<bar>q\<bar>" using l by (simp add: pow2_nat)
    then have "pow2 (?l - 1) * \<bar>q\<bar> \<le> 1" using pos by (simp add: pos_le_divide_eq)
    then have "\<bar>q\<bar> \<le> 1 / pow2 (?l - 1)" using pow2_pos[of "?l - 1"] by (simp add: pos_le_divide_eq mult.commute)
    then have "\<bar>q\<bar> \<le> pow2 (1 - ?l)" by (simp only: pow2_inverse minus_diff_eq)
    with False have "\<bar>q\<bar> < pow2 (1 - ?l)" by simp
    then show ?thesis using lt False by (simp add: ilog2_def Let_def)
  qed
qed

lemma dbl_double:
  assumes "is_double q"
  shows "dbl q = Fin q"
proof (cases "q = 0")
  case True
  then show ?thesis by (simp add: dbl_def)
next
  case False
  define e where "e = max (ilog2 q) (- 1022)"
  define u where "u = pow2 (e - 52)"
  define m where "m = \<lfloor>q / u\<rfloor>"
  have u: "0 < u" by (simp add: u_def pow2_pos)
  from assms False have int: "of_int m = q / u" and top: "ilog2 q < 1024"
    by (simp_all add: is_double_def ulp_def e_def u_def m_def)
  then have q: "of_int m * u = q" using u by simp
  have r: "round_half_even (q / u) = m" by (simp only: int[symmetric] round_half_even_int)
  have m0: "m \<noteq> 0" using q False by auto
  have e: "e \<le> 1023" using top by (simp add: e_def)
  have "\<bar>q\<bar> < pow2 (ilog2 q + 1)" by (rule ilog2_upper[OF False])
  also have "\<dots> \<le> pow2 (e + 1)" by (rule pow2_mono) (simp add: e_def)
  also have "\<dots> = pow2 53 * u"
  proof -
    have "e + 1 = 53 + (e - 52)" by simp
    then show ?thesis unfolding u_def by (simp only: pow2_add)
  qed
  finally have "\<bar>q\<bar> / u < pow2 53" using u by (simp add: pos_divide_less_eq)
  then have "\<bar>q / u\<bar> < pow2 53" using u by simp
  then have "\<bar>(of_int m :: rat)\<bar> < of_int (2 ^ 53)" by (simp add: int pow2_def)
  then have "(of_int \<bar>m\<bar> :: rat) < of_int (2 ^ 53)" by (simp only: of_int_abs)
  then have mb: "\<bar>m\<bar> < 2 ^ 53" by (simp only: of_int_less_iff)
  have "dbl q = Fin (of_int m * u)"
    unfolding dbl_def Let_def e_def[symmetric] u_def[symmetric] r using False e m0 mb by simp
  then show ?thesis by (simp only: q)
qed

section \<open>Properties of the number formatting\<close>

lemma digits10_0: "digits10 0 = ''0''"
  by (simp add: digits10.simps digit_char_def)

lemma digit_char_digit: "0 \<le> d \<Longrightarrow> d < 10 \<Longrightarrow> digit_char d \<in> set ''0123456789''"
proof -
  assume "0 \<le> d" "d < 10"
  then have "nat d < length ''0123456789''" by simp
  then show ?thesis unfolding digit_char_def by (rule nth_mem)
qed

lemma digits10_digits: "0 \<le> n \<Longrightarrow> set (digits10 n) \<subseteq> set ''0123456789''"
proof (induction n rule: digits10.induct)
  case (1 n)
  show ?case
  proof (cases "n < 10")
    case True
    with 1 show ?thesis
      using digit_char_digit[of n] by (subst digits10.simps) simp
  next
    case False
    then have "set (digits10 (n div 10)) \<subseteq> set ''0123456789''"
      using 1 by simp
    moreover have "digit_char (n mod 10) \<in> set ''0123456789''"
      by (rule digit_char_digit) simp_all
    ultimately show ?thesis
      using False by (subst digits10.simps) simp
  qed
qed

lemma length_digits10: "0 \<le> n \<Longrightarrow> n < 10 ^ k \<Longrightarrow> 0 < k \<Longrightarrow> length (digits10 n) \<le> k"
proof (induction n arbitrary: k rule: digits10.induct)
  case (1 n)
  show ?case
  proof (cases "n < 10")
    case True
    with 1 show ?thesis by (subst digits10.simps) simp
  next
    case False
    obtain j where k: "k = Suc j" using 1(4) by (cases k) auto
    have "j \<noteq> 0" using 1(3) False k by (cases j) auto
    moreover have "n div 10 < 10 ^ j" using 1(3) k by simp
    moreover have "0 \<le> n div 10" using 1(2) by simp
    ultimately have "length (digits10 (n div 10)) \<le> j"
      using 1(1)[OF False, of j] by simp
    then show ?thesis using False k by (subst digits10.simps) simp
  qed
qed

lemma strip_zeros_length: "length (strip_zeros s) \<le> length s"
proof -
  have "length (dropWhile (\<lambda>c. c = CHR ''0'') (rev s)) \<le> length (rev s)"
    by (rule length_dropWhile_le)
  then show ?thesis by (simp add: strip_zeros_def)
qed

lemma strip_zeros_set: "set (strip_zeros s) \<subseteq> set s"
  using set_dropWhileD[of _ "\<lambda>c. c = CHR ''0''" "rev s"] by (auto simp: strip_zeros_def)

lemma strip_zeros_last: "strip_zeros s \<noteq> [] \<Longrightarrow> last (strip_zeros s) \<noteq> CHR ''0''"
proof -
  assume a: "strip_zeros s \<noteq> []"
  let ?d = "dropWhile (\<lambda>c. c = CHR ''0'') (rev s)"
  from a have ne: "?d \<noteq> []" by (simp add: strip_zeros_def)
  then have "\<not> (hd ?d = CHR ''0'')" by (rule hd_dropWhile)
  moreover have "last (strip_zeros s) = hd ?d" using ne by (simp add: strip_zeros_def last_rev)
  ultimately show ?thesis by simp
qed

lemma strip_zeros_replicate: "strip_zeros (replicate k (CHR ''0'')) = []"
  by (simp add: strip_zeros_def)

lemma fraction_part_length: "0 \<le> n \<Longrightarrow> length (fraction_part mx n) \<le> mx"
proof (cases "mx = 0")
  case True
  then show ?thesis by (simp add: fraction_part_def strip_zeros_def)
next
  case False
  have "length (digits10 (n mod 10 ^ mx)) \<le> mx"
    by (rule length_digits10) (use False in simp_all)
  then have "length (pad_zeros mx (digits10 (n mod 10 ^ mx))) \<le> mx"
    by (simp add: pad_zeros_def)
  with strip_zeros_length[of "pad_zeros mx (digits10 (n mod 10 ^ mx))"] show ?thesis
    using False by (simp add: fraction_part_def)
qed

lemma fraction_part_digits: "set (fraction_part mx n) \<subseteq> set ''0123456789''"
proof (cases "mx = 0")
  case True
  then show ?thesis by (simp add: fraction_part_def strip_zeros_def)
next
  case False
  have "set (digits10 (n mod 10 ^ mx)) \<subseteq> set ''0123456789''"
    by (rule digits10_digits) simp
  then have "set (pad_zeros mx (digits10 (n mod 10 ^ mx))) \<subseteq> set ''0123456789''"
    by (auto simp: pad_zeros_def)
  with strip_zeros_set[of "pad_zeros mx (digits10 (n mod 10 ^ mx))"] show ?thesis
    using False unfolding fraction_part_def by auto
qed

lemma fraction_part_last: "fraction_part mx n \<noteq> [] \<Longrightarrow> last (fraction_part mx n) \<noteq> CHR ''0''"
  unfolding fraction_part_def by (rule strip_zeros_last)

lemma fraction_part_multiple: "fraction_part mx (k * 10 ^ mx) = []"
  by (simp add: fraction_part_def digits10_0 pad_zeros_def strip_zeros_def)

lemma group_rev_set: "set (group_rev ds) \<subseteq> insert (CHR '','') (set ds)"
  by (induction ds rule: group_rev.induct) auto

lemma group3_set: "set (group3 ds) \<subseteq> insert (CHR '','') (set ds)"
  using group_rev_set[of "rev ds"] by (simp add: group3_def)

lemma group3_digits10_no_point: "0 \<le> n \<Longrightarrow> CHR ''.'' \<notin> set (group3 (digits10 n))"
  using group3_set[of "digits10 n"] digits10_digits[of n] by auto

lemma fraction_digits_no_point: "CHR ''.'' \<notin> set s \<Longrightarrow> fraction_digits s = 0"
  by (simp add: fraction_digits_def)

lemma fraction_digits_point:
  "CHR ''.'' \<notin> set fs \<Longrightarrow> fraction_digits (a @ CHR ''.'' # fs) = length fs"
proof -
  assume a: "CHR ''.'' \<notin> set fs"
  have "takeWhile (\<lambda>c. c \<noteq> CHR ''.'') (rev fs @ CHR ''.'' # rev a) =
        rev fs @ takeWhile (\<lambda>c. c \<noteq> CHR ''.'') (CHR ''.'' # rev a)"
    by (rule takeWhile_append2) (use a in auto)
  then show ?thesis by (simp add: fraction_digits_def)
qed

lemma round_half_up_nonneg: "0 \<le> x \<Longrightarrow> 0 \<le> round_half_up x"
  by (simp add: round_half_up_def)

lemma round_half_up_int: "round_half_up (of_int k * 10 ^ mx) = k * 10 ^ mx"
proof -
  have "of_int k * 10 ^ mx + 1 / 2 = (of_int (k * 10 ^ mx) :: rat) + 1 / 2" by simp
  then have "round_half_up (of_int k * 10 ^ mx) = \<lfloor>(of_int (k * 10 ^ mx) :: rat) + 1 / 2\<rfloor>"
    by (simp only: round_half_up_def)
  also have "\<dots> = k * 10 ^ mx" by (rule floor_unique) simp_all
  finally show ?thesis .
qed

lemma format_decimal_fraction: "0 \<le> x \<Longrightarrow> fraction_digits (format_decimal mx x) \<le> mx"
proof -
  assume x: "0 \<le> x"
  define n where "n = round_half_up (x * 10 ^ mx)"
  have n: "0 \<le> n" unfolding n_def by (rule round_half_up_nonneg) (use x in simp)
  then have d: "0 \<le> n div 10 ^ mx" by (simp add: pos_imp_zdiv_nonneg_iff)
  have np: "CHR ''.'' \<notin> set (fraction_part mx n)" using fraction_part_digits[of mx n] by auto
  show ?thesis
  proof (cases "fraction_part mx n = []")
    case True
    then show ?thesis
      using group3_digits10_no_point[OF d]
      by (simp add: format_decimal_def Let_def n_def[symmetric] fraction_digits_no_point)
  next
    case False
    then show ?thesis
      using fraction_digits_point[OF np] fraction_part_length[OF n, of mx]
      by (simp add: format_decimal_def Let_def n_def[symmetric])
  qed
qed

lemma format_decimal_int: "0 \<le> k \<Longrightarrow> format_decimal mx (of_int k) = group3 (digits10 k)"
  by (simp add: format_decimal_def Let_def round_half_up_int fraction_part_multiple)

lemma fraction_digits_minus: "fraction_digits (CHR ''-'' # s) = fraction_digits s"
  by (simp add: fraction_digits_def)

subsection \<open>The shortest decimal\<close>

lemma pow10_pos: "0 < pow10 e"
  by (simp add: pow10_def)

lemma pow10_nat: "0 \<le> e \<Longrightarrow> pow10 e = of_int (10 ^ nat e)"
  by (simp add: pow10_def)

lemma candidates_set:
  assumes "s \<in> set (candidates x n k)"
  shows "dbl (of_int s * pow10 (n - int k)) = Fin x \<and>
         (s = \<lfloor>x / pow10 (n - int k)\<rfloor> \<or> s = \<lfloor>x / pow10 (n - int k)\<rfloor> + 1)"
  using assms by (auto simp: candidates_def Let_def split: if_splits)

lemma candidates_nonneg:
  assumes "0 \<le> x" "s \<in> set (candidates x n k)"
  shows "0 \<le> s"
proof -
  have "0 \<le> x / pow10 (n - int k)" using assms(1) pow10_pos[of "n - int k"] by simp
  then have "0 \<le> \<lfloor>x / pow10 (n - int k)\<rfloor>" by simp
  then show ?thesis using candidates_set[OF assms(2)] by auto
qed

lemma candidates_upper:
  assumes "s \<in> set (candidates x n k)"
  shows "of_int s * pow10 (n - int k) \<le> x + pow10 (n - int k)"
proof -
  let ?sc = "pow10 (n - int k)"
  have fl: "(of_int \<lfloor>x / ?sc\<rfloor> :: rat) \<le> x / ?sc" by (rule of_int_floor_le)
  have "s \<le> \<lfloor>x / ?sc\<rfloor> + 1" using candidates_set[OF assms] by auto
  then have "(of_int s :: rat) \<le> of_int (\<lfloor>x / ?sc\<rfloor> + 1)" by (simp only: of_int_le_iff)
  then have "(of_int s :: rat) \<le> of_int \<lfloor>x / ?sc\<rfloor> + 1" by (simp only: of_int_add of_int_1)
  with fl have "of_int s \<le> x / ?sc + 1" by linarith
  then have "of_int s * ?sc \<le> (x / ?sc + 1) * ?sc"
    using pow10_pos[of "n - int k"] by (simp only: mult_le_cancel_right_pos)
  also have "\<dots> = x + ?sc" using pow10_pos[of "n - int k"] by (simp add: distrib_right)
  finally show ?thesis .
qed

lemma candidates_exact:
  assumes "dbl x = Fin x" "of_int \<lfloor>x\<rfloor> = x" "0 \<le> n"
  shows "candidates x n (nat n) \<noteq> []"
proof -
  have "int (nat n) = n" using assms(3) by simp
  then have sc: "pow10 (n - int (nat n)) = 1" by (simp add: pow10_def)
  have "\<lfloor>x\<rfloor> \<in> set (candidates x n (nat n))"
    unfolding candidates_def Let_def sc using assms(1,2) by (auto simp del: of_int_add)
  then show ?thesis by auto
qed

lemma find_upt_least:
  assumes "find P [a..<b] = Some k" "P m" "a \<le> m" "m < b"
  shows "k \<le> m"
proof (rule ccontr)
  assume "\<not> k \<le> m"
  then have mk: "m < k" by simp
  from assms(1) obtain i where i: "i < length [a..<b]" "k = [a..<b] ! i" "\<forall>j<i. \<not> P ([a..<b] ! j)"
    unfolding find_Some_iff by blast
  then have k: "k = a + i" by simp
  have "m - a < i" using mk k assms(3) by simp
  moreover have "[a..<b] ! (m - a) = m" using assms(3,4) by simp
  ultimately show False using i(3) assms(2) by auto
qed

lemma find_upt_range:
  assumes "find P [a..<b] = Some k"
  shows "P k \<and> a \<le> k \<and> k < b"
proof -
  from assms have "P k \<and> k \<in> set [a..<b]" unfolding find_Some_iff by auto
  then show ?thesis by simp
qed

lemma shortest_decimal_cases:
  obtains (none) "find (\<lambda>k. candidates x (decimal_exponent x) k \<noteq> []) [1..<18] = None"
      "shortest_decimal x = (round_half_up (x / pow10 (decimal_exponent x - 17)), decimal_exponent x - 17)"
  | (some) k s where "find (\<lambda>k. candidates x (decimal_exponent x) k \<noteq> []) [1..<18] = Some k"
      "s \<in> set (candidates x (decimal_exponent x) k)" "1 \<le> k" "k < 18"
      "shortest_decimal x = (s, decimal_exponent x - int k)"
proof (cases "find (\<lambda>k. candidates x (decimal_exponent x) k \<noteq> []) [1..<18]")
  case None
  then show ?thesis using none by (simp add: shortest_decimal_def Let_def)
next
  case (Some k)
  from find_upt_range[OF Some] have r: "candidates x (decimal_exponent x) k \<noteq> []" "1 \<le> k" "k < 18"
    by auto
  then have "hd (candidates x (decimal_exponent x) k) \<in> set (candidates x (decimal_exponent x) k)"
    by simp
  then show ?thesis using some[OF Some _ r(2,3)] Some by (simp add: shortest_decimal_def Let_def)
qed

lemma round_half_up_nonneg': "0 \<le> x \<Longrightarrow> 0 \<le> round_half_up x"
  by (simp add: round_half_up_def)

lemma decimal_value_nonneg:
  assumes "0 \<le> x"
  shows "0 \<le> decimal_value x"
proof (cases x rule: shortest_decimal_cases)
  case none
  have "0 \<le> x / pow10 (decimal_exponent x - 17)" using assms pow10_pos[of "decimal_exponent x - 17"] by simp
  then have "0 \<le> round_half_up (x / pow10 (decimal_exponent x - 17))" by (rule round_half_up_nonneg')
  then show ?thesis using none(2) pow10_pos[of "decimal_exponent x - 17"]
    by (simp add: decimal_value_def)
next
  case (some k s)
  from candidates_nonneg[OF assms some(2)] show ?thesis
    using some(5) pow10_pos[of "decimal_exponent x - int k"] by (simp add: decimal_value_def)
qed

lemma decimal_value_reads_back:
  assumes "find (\<lambda>k. candidates x (decimal_exponent x) k \<noteq> []) [1..<18] \<noteq> None"
  shows "dbl (decimal_value x) = Fin x"
proof (cases x rule: shortest_decimal_cases)
  case none
  then show ?thesis using assms by simp
next
  case (some k s)
  then show ?thesis using candidates_set[OF some(2)] by (simp add: decimal_value_def)
qed

lemma length_digits10_pos: "0 < length (digits10 n)"
  by (subst digits10.simps) simp

lemma decimal_exponent_ge1:
  assumes "1 \<le> x"
  shows "decimal_exponent x = int (length (digits10 \<lfloor>x\<rfloor>))" "1 \<le> decimal_exponent x"
proof -
  show "decimal_exponent x = int (length (digits10 \<lfloor>x\<rfloor>))"
    using assms by (simp add: decimal_exponent_def)
  moreover have "1 \<le> int (length (digits10 \<lfloor>x\<rfloor>))"
    using length_digits10_pos[of "\<lfloor>x\<rfloor>"] by linarith
  ultimately show "1 \<le> decimal_exponent x" by (simp only:)
qed

text \<open>The shortest decimal of an integral binary64 value is an integer.\<close>

lemma shortest_decimal_integral:
  assumes "dbl x = Fin x" "of_int \<lfloor>x\<rfloor> = x" "1 \<le> x"
  shows "\<exists>c p. shortest_decimal x = (c, p) \<and> 0 \<le> c \<and> 0 \<le> p \<and>
           of_int c * pow10 p \<le> x + pow10 p \<and>
           (decimal_exponent x < 18 \<longrightarrow> dbl (of_int c * pow10 p) = Fin x \<and> p < decimal_exponent x)"
proof -
  define n where "n = decimal_exponent x"
  have n1: "1 \<le> n" using decimal_exponent_ge1(2)[OF assms(3)] by (simp add: n_def)
  have x0: "0 \<le> x" using assms(3) by simp
  show ?thesis
  proof (cases x rule: shortest_decimal_cases)
    case none
    have big: "18 \<le> n"
    proof (rule ccontr)
      assume "\<not> 18 \<le> n"
      then have "1 \<le> nat n \<and> nat n < 18" using n1 by linarith
      then have "nat n \<in> set [1..<18]" by simp
      moreover have "candidates x n (nat n) \<noteq> []"
        using candidates_exact[OF assms(1,2), of n] n1 by simp
      ultimately show False using none(1) unfolding find_None_iff n_def[symmetric] by blast
    qed
    have sc: "0 < pow10 (n - 17)" by (rule pow10_pos)
    have "0 \<le> x / pow10 (n - 17)" using x0 sc by simp
    then have c0: "0 \<le> round_half_up (x / pow10 (n - 17))" by (rule round_half_up_nonneg)
    have "of_int (round_half_up (x / pow10 (n - 17))) \<le> x / pow10 (n - 17) + 1 / 2"
      unfolding round_half_up_def by (rule of_int_floor_le)
    then have "of_int (round_half_up (x / pow10 (n - 17))) * pow10 (n - 17)
        \<le> (x / pow10 (n - 17) + 1 / 2) * pow10 (n - 17)"
      using sc by (simp only: mult_le_cancel_right_pos)
    also have "\<dots> = x + pow10 (n - 17) / 2" using sc by (simp add: distrib_right)
    also have "\<dots> \<le> x + pow10 (n - 17)" using sc by simp
    finally have up: "of_int (round_half_up (x / pow10 (n - 17))) * pow10 (n - 17) \<le> x + pow10 (n - 17)" .
    show ?thesis using none(2) c0 big up unfolding n_def[symmetric] by simp
  next
    case (some k s)
    have kn: "int k \<le> n"
    proof (cases "18 \<le> n")
      case True
      then show ?thesis using some(4) by simp
    next
      case False
      have "candidates x n (nat n) \<noteq> []"
        using candidates_exact[OF assms(1,2), of n] n1 by simp
      from find_upt_least[OF some(1)[unfolded n_def[symmetric]], of "nat n", OF this]
      have "k \<le> nat n" using n1 False by simp
      then show ?thesis using n1 by linarith
    qed
    have "0 \<le> s" using candidates_nonneg[OF x0 some(2)] .
    moreover have "of_int s * pow10 (n - int k) \<le> x + pow10 (n - int k)"
      using candidates_upper[OF some(2)] by (simp add: n_def)
    moreover have "dbl (of_int s * pow10 (n - int k)) = Fin x"
      using candidates_set[OF some(2)] by (simp add: n_def)
    ultimately show ?thesis using some(3,5) kn unfolding n_def[symmetric] by simp
  qed
qed

lemma decimal_value_integral:
  assumes "dbl x = Fin x" "of_int \<lfloor>x\<rfloor> = x" "1 \<le> x"
  shows "\<exists>c. 0 \<le> c \<and> decimal_value x = of_int c"
proof -
  from shortest_decimal_integral[OF assms] obtain c p
    where h: "shortest_decimal x = (c, p)" "0 \<le> c" "0 \<le> p" by blast
  have "decimal_value x = of_int (c * 10 ^ nat p)"
    using h by (simp add: decimal_value_def pow10_nat)
  moreover have "0 \<le> c * 10 ^ nat p" using h(2) by simp
  ultimately show ?thesis by blast
qed

text \<open>Up to \<open>10^15\<close> the shortest decimal of an integer is the integer itself.\<close>

lemma decimal_value_exact:
  assumes "0 < k" "k < 10 ^ 15"
  shows "decimal_value (of_int k) = of_int k"
proof -
  define x :: rat where "x = of_int k"
  have k53: "\<bar>k\<bar> < 2 ^ 53" using assms by simp
  have d: "dbl x = Fin x" unfolding x_def by (rule dbl_int[OF k53])
  have i: "of_int \<lfloor>x\<rfloor> = x" by (simp add: x_def)
  have x1: "1 \<le> x" using assms(1) by (simp add: x_def)
  have "length (digits10 k) \<le> 15" using length_digits10[of k 15] assms by simp
  then have n: "decimal_exponent x \<le> 15"
    using decimal_exponent_ge1(1)[OF x1] by (simp add: x_def)
  from shortest_decimal_integral[OF d i x1] n obtain c p
    where h: "shortest_decimal x = (c, p)" "0 \<le> c" "0 \<le> p"
      "of_int c * pow10 p \<le> x + pow10 p" "dbl (of_int c * pow10 p) = Fin x" "p < 15"
    by fastforce
  define y where "y = c * 10 ^ nat p"
  have y: "of_int c * pow10 p = (of_int y :: rat)" using h(3) by (simp add: y_def pow10_nat)
  have "(10 :: int) ^ nat p \<le> 10 ^ 14" using h(6) by (intro power_increasing) simp_all
  then have "(of_int (10 ^ nat p) :: rat) \<le> of_int (10 ^ 14)" by (simp only: of_int_le_iff)
  then have "pow10 p \<le> of_int (10 ^ 14)" using h(3) by (simp only: pow10_nat)
  with h(4) have "(of_int y :: rat) \<le> of_int k + of_int (10 ^ 14)" by (simp only: y x_def)
  then have "(of_int y :: rat) \<le> of_int (k + 10 ^ 14)" by (simp only: of_int_add)
  then have "y \<le> k + 10 ^ 14" by (simp only: of_int_le_iff)
  moreover have "0 \<le> y" using h(2) by (simp add: y_def)
  ultimately have "\<bar>y\<bar> < 2 ^ 53" using assms(2) by simp
  from dbl_int[OF this] h(5) have "(of_int y :: rat) = x" by (simp only: y) simp
  then show ?thesis using h(1) y by (simp add: decimal_value_def x_def)
qed

lemma is_double_minus:
  assumes "is_double q"
  shows "is_double (- q)"
proof (cases "q = 0")
  case True
  then show ?thesis by (simp add: is_double_def)
next
  case False
  have il: "ilog2 (- q) = ilog2 q" by (simp add: ilog2_def)
  then have u: "ulp (- q) = ulp q" by (simp add: ulp_def)
  from assms False have a: "of_int \<lfloor>q / ulp q\<rfloor> = q / ulp q" and t: "ilog2 q < 1024"
    unfolding is_double_def by blast+
  have "of_int (- \<lfloor>q / ulp q\<rfloor>) = - (of_int \<lfloor>q / ulp q\<rfloor> :: rat)" by (rule of_int_minus)
  also have "\<dots> = - (q / ulp q)" by (simp only: a)
  also have "\<dots> = - q / ulp q" by (rule minus_divide_left)
  finally have b: "of_int (- \<lfloor>q / ulp q\<rfloor>) = - q / ulp q" .
  have "of_int \<lfloor>- q / ulp q\<rfloor> = - q / ulp q" by (simp only: b[symmetric] floor_of_int)
  then show ?thesis using t unfolding is_double_def il u by blast
qed

lemma toLocaleString_fraction: "fraction_digits (toLocaleString mx n) \<le> mx"
proof (cases n)
  case (Fin q)
  have "0 \<le> decimal_value q" if "0 < q" using that decimal_value_nonneg[of q] by simp
  moreover have "0 \<le> decimal_value (- q)" if "q < 0" using that decimal_value_nonneg[of "- q"] by simp
  ultimately show ?thesis
    using Fin format_decimal_fraction[of "decimal_value q" mx]
      format_decimal_fraction[of "decimal_value (- q)" mx]
    by (auto simp: fraction_digits_minus fraction_digits_def)
qed (simp_all add: fraction_digits_def infinity_sign_def)

lemma abs_ge1_integral:
  assumes "of_int \<lfloor>q\<rfloor> = (q :: rat)" "q \<noteq> 0"
  shows "1 \<le> \<bar>q\<bar>"
proof -
  have "\<lfloor>q\<rfloor> \<noteq> 0" using assms by auto
  then have "(1 :: rat) \<le> \<bar>of_int \<lfloor>q\<rfloor>\<bar>" by (simp add: of_int_1_le_iff del: of_int_abs flip: of_int_abs)
  with assms(1) show ?thesis by metis
qed

lemma integral_minus: "of_int \<lfloor>q\<rfloor> = q \<Longrightarrow> of_int \<lfloor>- q\<rfloor> = - (q :: rat)"
proof -
  assume a: "of_int \<lfloor>q\<rfloor> = q"
  have "of_int (- \<lfloor>q\<rfloor>) = - (of_int \<lfloor>q\<rfloor> :: rat)" by (rule of_int_minus)
  with a have b: "of_int (- \<lfloor>q\<rfloor>) = - q" by metis
  show ?thesis by (simp only: b[symmetric] floor_of_int)
qed

text \<open>An integral binary64 value is printed without a fraction, whatever the allowed
  number of fraction digits.\<close>

lemma toLocaleString_integral:
  assumes "is_double q" "of_int \<lfloor>q\<rfloor> = q"
  shows "\<exists>c. 0 \<le> c \<and> toLocaleString mx (Fin q) = (if q < 0 then ''-'' else []) @ group3 (digits10 c)"
proof -
  have z: "group3 (digits10 0) = ''0''" by code_simp
  consider "q = 0" | "0 < q" | "q < 0" by linarith
  then show ?thesis
  proof cases
    case 1
    then show ?thesis using z by auto
  next
    case 2
    then have "1 \<le> q" using abs_ge1_integral[OF assms(2)] by simp
    from decimal_value_integral[OF dbl_double[OF assms(1)] assms(2) this]
    obtain c where "0 \<le> c" "decimal_value q = of_int c" by blast
    then show ?thesis using 2 format_decimal_int[of c mx] by auto
  next
    case 3
    then have "1 \<le> - q" using abs_ge1_integral[OF assms(2)] by simp
    from decimal_value_integral[OF dbl_double[OF is_double_minus[OF assms(1)]] integral_minus[OF assms(2)] this]
    obtain c where "0 \<le> c" "decimal_value (- q) = of_int c" by blast
    then show ?thesis using 3 format_decimal_int[of c mx] by auto
  qed
qed

lemma toLocaleString_int:
  assumes "\<bar>k\<bar> < 10 ^ 15"
  shows "toLocaleString mx (Fin (of_int k)) = (if k < 0 then ''-'' else []) @ group3 (digits10 \<bar>k\<bar>)"
proof -
  have z: "group3 (digits10 0) = ''0''" by code_simp
  consider "k = 0" | "0 < k" | "k < 0" by linarith
  then show ?thesis
  proof cases
    case 1
    then show ?thesis using z by simp
  next
    case 2
    then have "decimal_value (of_int k) = of_int k" using assms by (intro decimal_value_exact) simp_all
    then show ?thesis using 2 format_decimal_int[of k mx] by simp
  next
    case 3
    then have "decimal_value (of_int (- k)) = of_int (- k)" using assms by (intro decimal_value_exact) simp_all
    then show ?thesis using 3 format_decimal_int[of "- k" mx] by simp
  qed
qed

subsection \<open>The branches of \<open>fmt\<close>\<close>

lemma fmt_blank: "is_blank v \<Longrightarrow> fmt v = []"
  by (simp add: fmt_def)

lemma fmt_nan: "\<not> is_blank v \<Longrightarrow> isNaN (to_number v) \<Longrightarrow> fmt v = to_string v"
  by (simp add: fmt_def)

lemma toLocaleString_whole:
  assumes "of_int \<lfloor>q\<rfloor> = q" "\<bar>q\<bar> < 10 ^ 15"
  shows "toLocaleString mx (Fin q) = (if q < 0 then ''-'' else []) @ group3 (digits10 \<bar>\<lfloor>q\<rfloor>\<bar>)"
proof -
  have "\<bar>q\<bar> < of_int (10 ^ 15)" using assms(2) by simp
  then have "\<bar>(of_int \<lfloor>q\<rfloor> :: rat)\<bar> < of_int (10 ^ 15)" by (simp only: assms(1))
  then have "(of_int \<bar>\<lfloor>q\<rfloor>\<bar> :: rat) < of_int (10 ^ 15)" by (simp only: of_int_abs)
  then have b: "\<bar>\<lfloor>q\<rfloor>\<bar> < 10 ^ 15" by (simp only: of_int_less_iff)
  have "toLocaleString mx (Fin q) = toLocaleString mx (Fin (of_int \<lfloor>q\<rfloor>))" by (simp only: assms(1))
  also have "\<dots> = (if \<lfloor>q\<rfloor> < 0 then ''-'' else []) @ group3 (digits10 \<bar>\<lfloor>q\<rfloor>\<bar>)"
    by (rule toLocaleString_int[OF b])
  also have "(\<lfloor>q\<rfloor> < 0) = (q < 0)" by (simp add: floor_less_zero)
  finally show ?thesis .
qed

lemma toLocaleString_no_point:
  assumes "is_double q" "of_int \<lfloor>q\<rfloor> = q"
  shows "CHR ''.'' \<notin> set (toLocaleString mx (Fin q))"
proof -
  from toLocaleString_integral[OF assms, of mx] obtain c
    where c: "0 \<le> c" "toLocaleString mx (Fin q) = (if q < 0 then ''-'' else []) @ group3 (digits10 c)"
    by blast
  show ?thesis unfolding c(2) using group3_digits10_no_point[OF c(1)] by simp
qed

lemma fmt_integral:
  assumes "\<not> is_blank v" "to_number v = Fin q" "1000 \<le> \<bar>q\<bar>" "of_int \<lfloor>q\<rfloor> = q"
  shows "fmt v = toLocaleString 3 (Fin q)"
  using assms by (simp add: fmt_def isNaN_def num_ge_def)

lemma fmt_hundreds:
  assumes "\<not> is_blank v" "to_number v = Fin q" "100 \<le> \<bar>q\<bar>" "\<not> (1000 \<le> \<bar>q\<bar> \<and> of_int \<lfloor>q\<rfloor> = q)"
  shows "fmt v = toLocaleString 2 (Fin q)"
  using assms by (auto simp: fmt_def isNaN_def num_ge_def)

lemma fmt_small:
  assumes "\<not> is_blank v" "to_number v = Fin q" "\<bar>q\<bar> < 100"
  shows "fmt v = toLocaleString 4 (Fin q)"
  using assms by (auto simp: fmt_def isNaN_def num_ge_def)

lemma fmt_abc: "fmt (JStr ''abc'') = ''abc''" by code_simp
lemma fmt_1500: "fmt (JNum (dbl 1500)) = ''1,500''" by code_simp
lemma fmt_150_2: "fmt (JNum (dbl (1502 / 10))) = ''150.2''" by code_simp
lemma fmt_1_23456: "fmt (JNum (dbl (123456 / 100000))) = ''1.2346''" by code_simp
lemma fmt_100_005: "fmt (JNum (dbl (100005 / 1000))) = ''100.01''" by code_simp
lemma fmt_2_00005: "fmt (JNum (dbl (200005 / 100000))) = ''2.0001''" by code_simp
lemma fmt_1e23: "fmt (JNum (dbl (10 ^ 23))) = ''100,000,000,000,000,000,000,000''" by code_simp

section \<open>The plain formatter\<close>

text \<open>
  Claim C6.  \<open>fmt\<close> gives the empty string on \<open>null\<close>, \<open>undefined\<close> and the empty
  string, and the string form of the input when the conversion to a Number fails.  A
  finite number is rendered by magnitude.  An integral value of magnitude 1000 or more
  is rendered as digits grouped in threes, with no decimal point: for every binary64
  value, and below \<open>10^15\<close> the digits are those of the value itself.  Any other value of
  magnitude 100 or more is rendered with at most 2 fraction digits, every smaller value
  with at most 4.  The examples of the specification hold: \<open>fmt("abc")\<close>, \<open>fmt(1500)\<close>,
  \<open>fmt(150.2)\<close> and \<open>fmt(1.23456)\<close>.  The rounding is that of the shortest decimal of
  the Number: \<open>fmt(100.005)\<close> is \<open>100.01\<close>, \<open>fmt(2.00005)\<close> is \<open>2.0001\<close>, and \<open>fmt(1e23)\<close> is
  a one followed by 23 zeros.
\<close>

theorem fmt_tiers:
  "fmt JNull = [] \<and> fmt JUndefined = [] \<and> fmt (JStr []) = [] \<and>
   (\<forall>v. \<not> is_blank v \<and> isNaN (to_number v) \<longrightarrow> fmt v = to_string v) \<and>
   (\<forall>s. s \<noteq> [] \<and> isNaN (string_to_number s) \<longrightarrow> fmt (JStr s) = s) \<and>
   (\<forall>v q. \<not> is_blank v \<and> to_number v = Fin q \<and> 1000 \<le> \<bar>q\<bar> \<and> of_int \<lfloor>q\<rfloor> = q \<longrightarrow>
      fmt v = toLocaleString 3 (Fin q) \<and>
      (is_double q \<longrightarrow> CHR ''.'' \<notin> set (fmt v) \<and>
         (\<exists>c. 0 \<le> c \<and> fmt v = (if q < 0 then ''-'' else []) @ group3 (digits10 c))) \<and>
      (\<bar>q\<bar> < 10 ^ 15 \<longrightarrow> fmt v = (if q < 0 then ''-'' else []) @ group3 (digits10 \<bar>\<lfloor>q\<rfloor>\<bar>))) \<and>
   (\<forall>v q. \<not> is_blank v \<and> to_number v = Fin q \<and> 100 \<le> \<bar>q\<bar> \<and> \<not> (1000 \<le> \<bar>q\<bar> \<and> of_int \<lfloor>q\<rfloor> = q) \<longrightarrow>
      fmt v = toLocaleString 2 (Fin q) \<and> fraction_digits (fmt v) \<le> 2) \<and>
   (\<forall>v q. \<not> is_blank v \<and> to_number v = Fin q \<and> \<bar>q\<bar> < 100 \<longrightarrow>
      fmt v = toLocaleString 4 (Fin q) \<and> fraction_digits (fmt v) \<le> 4) \<and>
   fmt (JStr ''abc'') = ''abc'' \<and> fmt (JNum (dbl 1500)) = ''1,500'' \<and>
   fmt (JNum (dbl (1502 / 10))) = ''150.2'' \<and> fmt (JNum (dbl (123456 / 100000))) = ''1.2346'' \<and>
   fmt (JNum (dbl (100005 / 1000))) = ''100.01'' \<and> fmt (JNum (dbl (200005 / 100000))) = ''2.0001'' \<and>
   fmt (JNum (dbl (10 ^ 23))) = ''100,000,000,000,000,000,000,000''"
proof -
  have blank: "fmt JNull = [] \<and> fmt JUndefined = [] \<and> fmt (JStr []) = []"
    by (simp add: fmt_blank is_blank_def)
  have str: "fmt (JStr s) = s" if "s \<noteq> []" "isNaN (string_to_number s)" for s
    using fmt_nan[of "JStr s"] that by (simp add: is_blank_def)
  have i: "fmt v = toLocaleString 3 (Fin q) \<and>
      (is_double q \<longrightarrow> CHR ''.'' \<notin> set (fmt v) \<and>
         (\<exists>c. 0 \<le> c \<and> fmt v = (if q < 0 then ''-'' else []) @ group3 (digits10 c))) \<and>
      (\<bar>q\<bar> < 10 ^ 15 \<longrightarrow> fmt v = (if q < 0 then ''-'' else []) @ group3 (digits10 \<bar>\<lfloor>q\<rfloor>\<bar>))"
    if "\<not> is_blank v \<and> to_number v = Fin q \<and> 1000 \<le> \<bar>q\<bar> \<and> of_int \<lfloor>q\<rfloor> = q" for v q
  proof -
    from that have f: "fmt v = toLocaleString 3 (Fin q)" and w: "of_int \<lfloor>q\<rfloor> = q"
      using fmt_integral[of v q] by blast+
    show ?thesis unfolding f
      using toLocaleString_no_point[OF _ w, of 3] toLocaleString_integral[OF _ w, of 3]
        toLocaleString_whole[OF w, of 3]
      by blast
  qed
  have h: "fmt v = toLocaleString 2 (Fin q) \<and> fraction_digits (fmt v) \<le> 2"
    if "\<not> is_blank v \<and> to_number v = Fin q \<and> 100 \<le> \<bar>q\<bar> \<and> \<not> (1000 \<le> \<bar>q\<bar> \<and> of_int \<lfloor>q\<rfloor> = q)" for v q
    using fmt_hundreds[of v q] that toLocaleString_fraction[of 2 "Fin q"] by simp
  have l: "fmt v = toLocaleString 4 (Fin q) \<and> fraction_digits (fmt v) \<le> 4"
    if "\<not> is_blank v \<and> to_number v = Fin q \<and> \<bar>q\<bar> < 100" for v q
    using fmt_small[of v q] that toLocaleString_fraction[of 4 "Fin q"] by simp
  have n: "\<forall>v. \<not> is_blank v \<and> isNaN (to_number v) \<longrightarrow> fmt v = to_string v"
    using fmt_nan by blast
  have s: "\<forall>s. s \<noteq> [] \<and> isNaN (string_to_number s) \<longrightarrow> fmt (JStr s) = s"
    using str by blast
  from i have i': "\<forall>v q. \<not> is_blank v \<and> to_number v = Fin q \<and> 1000 \<le> \<bar>q\<bar> \<and> of_int \<lfloor>q\<rfloor> = q \<longrightarrow>
      fmt v = toLocaleString 3 (Fin q) \<and>
      (is_double q \<longrightarrow> CHR ''.'' \<notin> set (fmt v) \<and>
         (\<exists>c. 0 \<le> c \<and> fmt v = (if q < 0 then ''-'' else []) @ group3 (digits10 c))) \<and>
      (\<bar>q\<bar> < 10 ^ 15 \<longrightarrow> fmt v = (if q < 0 then ''-'' else []) @ group3 (digits10 \<bar>\<lfloor>q\<rfloor>\<bar>))"
    by (intro allI impI)
  from h have h': "\<forall>v q. \<not> is_blank v \<and> to_number v = Fin q \<and> 100 \<le> \<bar>q\<bar> \<and> \<not> (1000 \<le> \<bar>q\<bar> \<and> of_int \<lfloor>q\<rfloor> = q) \<longrightarrow>
      fmt v = toLocaleString 2 (Fin q) \<and> fraction_digits (fmt v) \<le> 2"
    by (intro allI impI)
  from l have l': "\<forall>v q. \<not> is_blank v \<and> to_number v = Fin q \<and> \<bar>q\<bar> < 100 \<longrightarrow>
      fmt v = toLocaleString 4 (Fin q) \<and> fraction_digits (fmt v) \<le> 4"
    by (intro allI impI)
  from blank have b1: "fmt JNull = []" and b2: "fmt JUndefined = []" and b3: "fmt (JStr []) = []"
    by blast+
  show ?thesis
    by (intro conjI) (rule b1 b2 b3 n s i' h' l' fmt_abc fmt_1500 fmt_150_2 fmt_1_23456
        fmt_100_005 fmt_2_00005 fmt_1e23)+
qed

theorem fmt_tiers_witness:
  "fmt (JNum (Fin 2500)) = ''2,500'' \<and> CHR ''.'' \<notin> set (fmt (JNum (Fin 2500))) \<and>
   fraction_digits (fmt (JNum (Fin (1001 / 2)))) \<le> 2 \<and> fmt (JNum (Fin (1001 / 2))) = ''500.5'' \<and>
   fraction_digits (fmt (JNum (Fin (1 / 8)))) \<le> 4 \<and> fmt (JNum (Fin (1 / 8))) = ''0.125'' \<and>
   fmt (JStr ''n/a'') = ''n/a''"
proof -
  have t1: "\<not> is_blank v \<and> to_number v = Fin q \<and> 1000 \<le> \<bar>q\<bar> \<and> of_int \<lfloor>q\<rfloor> = q \<longrightarrow>
      (is_double q \<longrightarrow> CHR ''.'' \<notin> set (fmt v)) \<and>
      (\<bar>q\<bar> < 10 ^ 15 \<longrightarrow> fmt v = (if q < 0 then ''-'' else []) @ group3 (digits10 \<bar>\<lfloor>q\<rfloor>\<bar>))" for v q
    using fmt_tiers by blast
  have t2: "\<not> is_blank v \<and> to_number v = Fin q \<and> 100 \<le> \<bar>q\<bar> \<and> \<not> (1000 \<le> \<bar>q\<bar> \<and> of_int \<lfloor>q\<rfloor> = q) \<longrightarrow>
      fmt v = toLocaleString 2 (Fin q) \<and> fraction_digits (fmt v) \<le> 2" for v q
    using fmt_tiers by blast
  have t3: "\<not> is_blank v \<and> to_number v = Fin q \<and> \<bar>q\<bar> < 100 \<longrightarrow>
      fmt v = toLocaleString 4 (Fin q) \<and> fraction_digits (fmt v) \<le> 4" for v q
    using fmt_tiers by blast
  have t4: "s \<noteq> [] \<and> isNaN (string_to_number s) \<longrightarrow> fmt (JStr s) = s" for s
    using fmt_tiers by blast
  have g: "group3 (digits10 2500) = ''2,500''" by code_simp
  have d: "is_double 2500" by code_simp
  from t1[of "JNum (Fin 2500)" 2500] g d
  have a: "fmt (JNum (Fin 2500)) = ''2,500'' \<and> CHR ''.'' \<notin> set (fmt (JNum (Fin 2500)))"
    by (simp add: is_blank_def)
  have l2: "toLocaleString 2 (Fin (1001 / 2)) = ''500.5''" by code_simp
  have p2: "\<not> is_blank (JNum (Fin (1001 / 2))) \<and> to_number (JNum (Fin (1001 / 2))) = Fin (1001 / 2) \<and>
      100 \<le> \<bar>1001 / 2 :: rat\<bar> \<and> \<not> (1000 \<le> \<bar>1001 / 2 :: rat\<bar> \<and> of_int \<lfloor>1001 / 2 :: rat\<rfloor> = (1001 / 2 :: rat))"
    by (simp add: is_blank_def)
  have x2: "fmt (JNum (Fin (1001 / 2))) = toLocaleString 2 (Fin (1001 / 2)) \<and>
      fraction_digits (fmt (JNum (Fin (1001 / 2)))) \<le> 2"
    by (rule mp[OF t2 p2])
  have b: "fraction_digits (fmt (JNum (Fin (1001 / 2)))) \<le> 2 \<and> fmt (JNum (Fin (1001 / 2))) = ''500.5''"
    by (rule conjI[OF conjunct2[OF x2] trans[OF conjunct1[OF x2] l2]])
  have l4: "toLocaleString 4 (Fin (1 / 8)) = ''0.125''" by code_simp
  have p3: "\<not> is_blank (JNum (Fin (1 / 8))) \<and> to_number (JNum (Fin (1 / 8))) = Fin (1 / 8) \<and> \<bar>1 / 8 :: rat\<bar> < 100"
    by (simp add: is_blank_def)
  have x3: "fmt (JNum (Fin (1 / 8))) = toLocaleString 4 (Fin (1 / 8)) \<and>
      fraction_digits (fmt (JNum (Fin (1 / 8)))) \<le> 4"
    by (rule mp[OF t3 p3])
  have c: "fraction_digits (fmt (JNum (Fin (1 / 8)))) \<le> 4 \<and> fmt (JNum (Fin (1 / 8))) = ''0.125''"
    by (rule conjI[OF conjunct2[OF x3] trans[OF conjunct1[OF x3] l4]])
  have "isNaN (string_to_number ''n/a'')" by code_simp
  then have e: "fmt (JStr ''n/a'') = ''n/a''"
    using t4[of "''n/a''"] by simp
  from a b c e show ?thesis by blast
qed

section \<open>The structure of the totals\<close>

lemma delta_keys_eq:
  "delta_keys = [''0.05'', ''0.10'', ''0.15'', ''0.20'', ''0.25'', ''0.30'', ''0.35'', ''0.40'', ''0.45'', ''0.50'']"
  by code_simp

lemma delta_keys_distinct: "distinct delta_keys"
  unfolding delta_keys_eq by simp

lemma delta_keys_length: "length delta_keys = 10"
  unfolding delta_keys_eq by simp

lemma add_row_keys: "add_row t r = foldl (add_key r) t delta_keys"
proof -
  have "add_delta r = (\<lambda>a x. add_key r a (delta_key x))"
    by (intro ext) (simp add: add_delta_def)
  then show ?thesis by (simp add: add_row_def delta_keys_def foldl_map)
qed

lemma init_totals_keys: "init_totals = foldl (\<lambda>t k. t(k \<mapsto> Fin 0)) Map.empty delta_keys"
  by (simp add: init_totals_def delta_keys_def foldl_map)

lemma foldl_init_apply:
  "foldl (\<lambda>t k. t(k \<mapsto> v)) t ks k = (if k \<in> set ks then Some v else t k)"
  by (induction ks arbitrary: t) auto

lemma init_totals_apply: "init_totals k = (if k \<in> set delta_keys then Some (Fin 0) else None)"
  by (simp add: init_totals_keys foldl_init_apply)

lemma add_key_other: "k' \<noteq> k \<Longrightarrow> add_key r t k' k = t k"
  by (simp add: add_key_def Let_def)

lemma add_key_same: "t k = Some a \<Longrightarrow> add_key r t k k = Some (accumulate a (net_value r k))"
  by (simp add: add_key_def Let_def accumulate_def read_total_def)

lemma foldl_add_key_notin: "k \<notin> set ks \<Longrightarrow> foldl (add_key r) t ks k = t k"
  by (induction ks arbitrary: t) (auto simp: add_key_other)

lemma foldl_add_key_in:
  "distinct ks \<Longrightarrow> k \<in> set ks \<Longrightarrow> t k = Some a \<Longrightarrow>
   foldl (add_key r) t ks k = Some (accumulate a (net_value r k))"
proof (induction ks arbitrary: t)
  case Nil
  then show ?case by simp
next
  case (Cons x ks)
  show ?case
  proof (cases "x = k")
    case True
    with Cons.prems have "k \<notin> set ks" by simp
    then have "foldl (add_key r) (add_key r t k) ks k = add_key r t k k"
      by (rule foldl_add_key_notin)
    with True Cons.prems(3) show ?thesis by (simp add: add_key_same)
  next
    case False
    with Cons.prems have "k \<in> set ks" "distinct ks" by auto
    moreover have "add_key r t x k = Some a" using False Cons.prems(3) by (simp add: add_key_other)
    ultimately show ?thesis using Cons.IH by simp
  qed
qed

lemma add_row_in:
  "k \<in> set delta_keys \<Longrightarrow> t k = Some a \<Longrightarrow> add_row t r k = Some (accumulate a (net_value r k))"
  unfolding add_row_keys by (rule foldl_add_key_in[OF delta_keys_distinct])

lemma add_row_notin: "k \<notin> set delta_keys \<Longrightarrow> add_row t r k = t k"
  unfolding add_row_keys by (rule foldl_add_key_notin)

lemma foldl_add_row_in:
  "k \<in> set delta_keys \<Longrightarrow> t k = Some a \<Longrightarrow>
   foldl add_row t visible k = Some (foldl (\<lambda>acc r. accumulate acc (net_value r k)) a visible)"
  by (induction visible arbitrary: t a) (simp_all add: add_row_in)

lemma foldl_add_row_notin: "k \<notin> set delta_keys \<Longrightarrow> foldl add_row t visible k = t k"
  by (induction visible arbitrary: t) (simp_all add: add_row_notin)

lemma netTotals_key: "k \<in> set delta_keys \<Longrightarrow> netTotalsByDelta visible k = Some (net_sum visible k)"
  unfolding netTotalsByDelta_def net_sum_def
  by (rule foldl_add_row_in) (simp_all add: init_totals_apply)

lemma netTotals_other: "k \<notin> set delta_keys \<Longrightarrow> netTotalsByDelta visible k = None"
  unfolding netTotalsByDelta_def by (simp add: foldl_add_row_notin init_totals_apply)

lemma netTotals_dom: "dom (netTotalsByDelta visible) = set delta_keys"
proof -
  have "(netTotalsByDelta visible k \<noteq> None) = (k \<in> set delta_keys)" for k
    using netTotals_key[of k visible] netTotals_other[of k visible] by (cases "k \<in> set delta_keys") simp_all
  then show ?thesis by (auto simp: dom_def)
qed

lemma delta_key_nth: "i < 10 \<Longrightarrow> delta_key (DELTAS ! i) = delta_keys ! i"
  by (simp add: delta_keys_def DELTAS_def)

lemma totals_cell_key:
  "delta_key d \<in> set delta_keys \<Longrightarrow> totals_cell (netTotalsByDelta visible) d = money (JNum (net_sum visible (delta_key d)))"
  by (simp add: totals_cell_def netTotals_key)

lemma spec_rows_sum:
  "net_sum [[''symbol'' \<mapsto> JStr ''AAA'', ''0.15N'' \<mapsto> JNum (Fin 10)],
            [''symbol'' \<mapsto> JStr ''BBB'', ''0.15N'' \<mapsto> JNum (Fin 25)]] ''0.15'' = Fin 35"
  by code_simp

lemma money_35: "money (JNum (Fin 35)) = ''$35''"
  by code_simp

lemma spec_rows_cell:
  "totals_cell (netTotalsByDelta [[''symbol'' \<mapsto> JStr ''AAA'', ''0.15N'' \<mapsto> JNum (Fin 10)],
            [''symbol'' \<mapsto> JStr ''BBB'', ''0.15N'' \<mapsto> JNum (Fin 25)]]) (DELTAS ! 2) = ''$35''"
proof -
  have k: "delta_key (DELTAS ! 2) = ''0.15''"
    by (simp add: delta_key_nth) (simp add: delta_keys_eq)
  then have "delta_key (DELTAS ! 2) \<in> set delta_keys" by (simp add: delta_keys_eq)
  from totals_cell_key[OF this] show ?thesis
    by (simp add: k spec_rows_sum money_35)
qed

section \<open>The currency formatter\<close>

lemma money_1234_5: "money (JNum (dbl (12345 / 10))) = ''$1,234.5''"
  by code_simp

lemma money_1_005: "money (JNum (dbl (1005 / 1000))) = ''$1.01''"
  by code_simp

lemma format_decimal_last:
  assumes "0 \<le> x" "CHR ''.'' \<in> set (format_decimal mx x)"
  shows "last (format_decimal mx x) \<noteq> CHR ''0''"
proof -
  define n where "n = round_half_up (x * 10 ^ mx)"
  have n: "0 \<le> n" unfolding n_def by (rule round_half_up_nonneg) (use assms in simp)
  then have d: "0 \<le> n div 10 ^ mx" by (simp add: pos_imp_zdiv_nonneg_iff)
  have f: "format_decimal mx x =
      group3 (digits10 (n div 10 ^ mx)) @ (if fraction_part mx n = [] then [] else CHR ''.'' # fraction_part mx n)"
    by (simp add: format_decimal_def Let_def n_def)
  have ne: "fraction_part mx n \<noteq> []"
    using assms(2) group3_digits10_no_point[OF d] unfolding f by (auto split: if_splits)
  then have "last (format_decimal mx x) = last (fraction_part mx n)"
    unfolding f by simp
  with fraction_part_last[OF ne] show ?thesis by simp
qed

lemma toLocaleString_last:
  "CHR ''.'' \<in> set (toLocaleString mx n) \<Longrightarrow> last (toLocaleString mx n) \<noteq> CHR ''0''"
proof (cases n)
  case (Fin q)
  assume a: "CHR ''.'' \<in> set (toLocaleString mx n)"
  consider "q = 0" | "q < 0" | "0 < q" by linarith
  then show ?thesis
  proof cases
    case 1
    with a Fin show ?thesis by simp
  next
    case 2
    with a Fin have p: "CHR ''.'' \<in> set (format_decimal mx (decimal_value (- q)))" by simp
    then have "format_decimal mx (decimal_value (- q)) \<noteq> []" by auto
    moreover have "0 \<le> decimal_value (- q)" using 2 by (intro decimal_value_nonneg) simp
    ultimately show ?thesis using format_decimal_last[OF _ p] 2 Fin by simp
  next
    case 3
    with a Fin have p: "CHR ''.'' \<in> set (format_decimal mx (decimal_value q))" by simp
    moreover have "0 \<le> decimal_value q" using 3 by (intro decimal_value_nonneg) simp
    ultimately show ?thesis using format_decimal_last[OF _ p] 3 Fin by simp
  qed
qed (simp_all add: infinity_sign_def)

lemma money_blank: "is_blank v \<Longrightarrow> money v = []"
  by (simp add: money_def)

lemma money_number:
  "\<not> is_blank v \<Longrightarrow> \<not> isNaN (to_number v) \<Longrightarrow> money v = CHR ''$'' # toLocaleString 2 (to_number v)"
  by (simp add: money_def)

lemma money_fraction:
  assumes "\<not> is_blank v" "\<not> isNaN (to_number v)"
  shows "fraction_digits (money v) \<le> 2"
proof -
  have "fraction_digits (CHR ''$'' # s) = fraction_digits s" for s
    by (simp add: fraction_digits_def)
  with toLocaleString_fraction[of 2 "to_number v"] show ?thesis
    by (simp add: money_number[OF assms])
qed

lemma money_last:
  assumes "\<not> is_blank v" "\<not> isNaN (to_number v)" "CHR ''.'' \<in> set (money v)"
  shows "last (money v) \<noteq> CHR ''0''"
proof -
  from assms(3) have p: "CHR ''.'' \<in> set (toLocaleString 2 (to_number v))"
    by (simp add: money_number[OF assms(1,2)])
  then have "toLocaleString 2 (to_number v) \<noteq> []" by auto
  with toLocaleString_last[OF p] show ?thesis
    by (simp add: money_number[OF assms(1,2)])
qed

lemma money_integral:
  assumes "\<not> is_blank v" "to_number v = Fin q" "of_int \<lfloor>q\<rfloor> = q"
  shows "(is_double q \<longrightarrow> CHR ''.'' \<notin> set (money v) \<and>
           (\<exists>c. 0 \<le> c \<and> money v = CHR ''$'' # (if q < 0 then ''-'' else []) @ group3 (digits10 c))) \<and>
         (\<bar>q\<bar> < 10 ^ 15 \<longrightarrow>
           money v = CHR ''$'' # (if q < 0 then ''-'' else []) @ group3 (digits10 \<bar>\<lfloor>q\<rfloor>\<bar>))"
proof -
  have m: "money v = CHR ''$'' # toLocaleString 2 (Fin q)"
    using assms(1,2) by (simp add: money_def isNaN_def)
  show ?thesis unfolding m
    using toLocaleString_no_point[OF _ assms(3), of 2] toLocaleString_integral[OF _ assms(3), of 2]
      toLocaleString_whole[OF assms(3), of 2]
    by auto
qed

text \<open>
  Claim C1, as the code has it.  \<open>money\<close> gives the empty string on \<open>null\<close>,
  \<open>undefined\<close> and the empty string.  On every other input that converts to a Number
  other than NaN it gives the currency sign followed by the en-US rendering with at most
  2 fraction digits: the fraction never ends in a zero, and a whole number is rendered
  without a decimal point (for every integral binary64 value; below \<open>10^15\<close> the digits
  are those of the value).  So \<open>money(1234.5)\<close> is \<open>$1,234.5\<close>, and the totals cell of
  the 0.15 group for the two rows of the specification, whose net sum is 35, shows
  \<open>$35\<close>.  The rounding is that of the shortest decimal of the Number: \<open>money(1.005)\<close> is
  \<open>$1.01\<close>.
\<close>

theorem money_rendering:
  "money JNull = [] \<and> money JUndefined = [] \<and> money (JStr []) = [] \<and>
   (\<forall>v. \<not> is_blank v \<and> \<not> isNaN (to_number v) \<longrightarrow>
      money v = CHR ''$'' # toLocaleString 2 (to_number v) \<and>
      fraction_digits (money v) \<le> 2 \<and>
      (CHR ''.'' \<in> set (money v) \<longrightarrow> last (money v) \<noteq> CHR ''0'')) \<and>
   (\<forall>v q. \<not> is_blank v \<and> to_number v = Fin q \<and> of_int \<lfloor>q\<rfloor> = q \<longrightarrow>
      (is_double q \<longrightarrow> CHR ''.'' \<notin> set (money v) \<and>
         (\<exists>c. 0 \<le> c \<and> money v = CHR ''$'' # (if q < 0 then ''-'' else []) @ group3 (digits10 c))) \<and>
      (\<bar>q\<bar> < 10 ^ 15 \<longrightarrow>
         money v = CHR ''$'' # (if q < 0 then ''-'' else []) @ group3 (digits10 \<bar>\<lfloor>q\<rfloor>\<bar>))) \<and>
   money (JNum (dbl (12345 / 10))) = ''$1,234.5'' \<and>
   money (JNum (dbl (1005 / 1000))) = ''$1.01'' \<and>
   totals_cell (netTotalsByDelta [[''symbol'' \<mapsto> JStr ''AAA'', ''0.15N'' \<mapsto> JNum (Fin 10)],
            [''symbol'' \<mapsto> JStr ''BBB'', ''0.15N'' \<mapsto> JNum (Fin 25)]]) (DELTAS ! 2) = ''$35''"
proof -
  have b1: "money JNull = []" and b2: "money JUndefined = []" and b3: "money (JStr []) = []"
    by (simp_all add: money_blank is_blank_def)
  have n: "\<forall>v. \<not> is_blank v \<and> \<not> isNaN (to_number v) \<longrightarrow>
      money v = CHR ''$'' # toLocaleString 2 (to_number v) \<and>
      fraction_digits (money v) \<le> 2 \<and>
      (CHR ''.'' \<in> set (money v) \<longrightarrow> last (money v) \<noteq> CHR ''0'')"
    using money_number money_fraction money_last by blast
  have i: "\<forall>v q. \<not> is_blank v \<and> to_number v = Fin q \<and> of_int \<lfloor>q\<rfloor> = q \<longrightarrow>
      (is_double q \<longrightarrow> CHR ''.'' \<notin> set (money v) \<and>
         (\<exists>c. 0 \<le> c \<and> money v = CHR ''$'' # (if q < 0 then ''-'' else []) @ group3 (digits10 c))) \<and>
      (\<bar>q\<bar> < 10 ^ 15 \<longrightarrow>
         money v = CHR ''$'' # (if q < 0 then ''-'' else []) @ group3 (digits10 \<bar>\<lfloor>q\<rfloor>\<bar>))"
    using money_integral by blast
  show ?thesis
    by (intro conjI) (rule b1 b2 b3 n i money_1234_5 money_1_005 spec_rows_cell)+
qed

theorem money_rendering_witness:
  "money (JNum (Fin 7)) = ''$7'' \<and> CHR ''.'' \<notin> set (money (JNum (Fin 7))) \<and>
   fraction_digits (money (JStr ''2.5'')) \<le> 2 \<and> money (JStr ''2.5'') = ''$2.5''"
proof -
  have t1: "\<not> is_blank v \<and> to_number v = Fin q \<and> of_int \<lfloor>q\<rfloor> = q \<longrightarrow>
      (is_double q \<longrightarrow> CHR ''.'' \<notin> set (money v)) \<and>
      (\<bar>q\<bar> < 10 ^ 15 \<longrightarrow>
         money v = CHR ''$'' # (if q < 0 then ''-'' else []) @ group3 (digits10 \<bar>\<lfloor>q\<rfloor>\<bar>))" for v q
    using money_rendering by blast
  have t2: "\<not> is_blank v \<and> \<not> isNaN (to_number v) \<longrightarrow>
      money v = CHR ''$'' # toLocaleString 2 (to_number v) \<and> fraction_digits (money v) \<le> 2" for v
    using money_rendering by blast
  have g: "group3 (digits10 7) = ''7''" by code_simp
  have d: "is_double 7" by code_simp
  from t1[of "JNum (Fin 7)" 7] g d
  have a: "money (JNum (Fin 7)) = ''$7'' \<and> CHR ''.'' \<notin> set (money (JNum (Fin 7)))"
    by (simp add: is_blank_def)
  have p: "\<not> is_blank (JStr ''2.5'') \<and> \<not> isNaN (to_number (JStr ''2.5''))" by code_simp
  have x: "money (JStr ''2.5'') = CHR ''$'' # toLocaleString 2 (to_number (JStr ''2.5'')) \<and>
      fraction_digits (money (JStr ''2.5'')) \<le> 2"
    by (rule mp[OF t2 p])
  have l: "CHR ''$'' # toLocaleString 2 (to_number (JStr ''2.5'')) = ''$2.5''" by code_simp
  have b: "fraction_digits (money (JStr ''2.5'')) \<le> 2 \<and> money (JStr ''2.5'') = ''$2.5''"
    by (rule conjI[OF conjunct2[OF x] trans[OF conjunct1[OF x] l]])
  from a b show ?thesis by blast
qed

theorem money_two_decimals_counterexample:
  "money (JNum (dbl (12345 / 10))) \<noteq> ''$1,234.50'' \<and>
   totals_cell (netTotalsByDelta [[''symbol'' \<mapsto> JStr ''AAA'', ''0.15N'' \<mapsto> JNum (Fin 10)],
            [''symbol'' \<mapsto> JStr ''BBB'', ''0.15N'' \<mapsto> JNum (Fin 25)]]) (DELTAS ! 2) \<noteq> ''$35.00''"
  using money_1234_5 spec_rows_cell by simp

section \<open>Strings and the filter\<close>








section \<open>The filter step\<close>



lemma filter_step_blank: "toLowerCase (trim Q) = [] \<Longrightarrow> filter_step R Q = Inr R"
  by (simp add: filter_step_def)







section \<open>The memo as a function of the rows\<close>

subsection \<open>The memo as a function of the rows\<close>

lemma filteredSorted_store_eq:
  "filteredSorted_store s a Q K D =
     (case filter_step (deref s a) Q of
        Inl e \<Rightarrow> (Inl e, s)
      | Inr out \<Rightarrow>
          (if toLowerCase (trim Q) = []
           then (Inr (next_ref s),
                 s\<lparr>arrays := (arrays s)(next_ref s \<mapsto> sort_step K D out), next_ref := Suc (next_ref s)\<rparr>)
           else (Inr (Suc (next_ref s)),
                 s\<lparr>arrays := (arrays s)(next_ref s \<mapsto> out, Suc (next_ref s) \<mapsto> sort_step K D out),
                   next_ref := Suc (Suc (next_ref s))\<rparr>)))"
  by (auto simp: filteredSorted_store_def filter_step_def Let_def alloc_def deref_def
        sort_in_place_def sort_step_def split: sum.splits)

lemma filteredSorted_eq:
  "filteredSorted R Q K D =
     (case filter_step R Q of Inl e \<Rightarrow> Inl e | Inr out \<Rightarrow> Inr (sort_step K D out))"
  by (simp add: filteredSorted_def filteredSorted_store_eq deref_def split: sum.splits)

section \<open>The comparator\<close>

lemma num_lt_asym: "num_lt a b \<Longrightarrow> \<not> num_lt b a"
  by (cases a; cases b) auto

lemma num_lt_negtrans:
  "a \<noteq> NaN \<Longrightarrow> b \<noteq> NaN \<Longrightarrow> c \<noteq> NaN \<Longrightarrow> \<not> num_lt a b \<Longrightarrow> \<not> num_lt b c \<Longrightarrow> \<not> num_lt a c"
  by (cases a; cases b; cases c) auto

lemma code_unit_inj: "code_unit a = code_unit b \<Longrightarrow> a = b"
  by (simp add: code_unit_def)

lemma str_lt_asym: "str_lt s t \<Longrightarrow> \<not> str_lt t s"
  by (induction s t rule: str_lt.induct) auto

lemma str_lt_negtrans: "\<not> str_lt a b \<Longrightarrow> \<not> str_lt b c \<Longrightarrow> \<not> str_lt a c"
proof (induction a arbitrary: b c)
  case Nil
  then show ?case by (cases b; cases c) auto
next
  case (Cons x s)
  show ?case
  proof (cases c)
    case Nil
    then show ?thesis by simp
  next
    case c: (Cons z u)
    show ?thesis
    proof (cases b)
      case Nil
      with Cons.prems c show ?thesis by simp
    next
      case b: (Cons y t)
      from Cons.prems(1) b have 1: "code_unit y \<le> code_unit x" "x = y \<longrightarrow> \<not> str_lt s t" by auto
      from Cons.prems(2) b c have 2: "code_unit z \<le> code_unit y" "y = z \<longrightarrow> \<not> str_lt t u" by auto
      have "\<not> str_lt s u" if "x = z"
      proof -
        from that 1 2 have "code_unit x = code_unit y" by simp
        then have "x = y" by (rule code_unit_inj)
        with that 1 2 Cons.IH show ?thesis by blast
      qed
      with 1 2 c show ?thesis by auto
    qed
  qed
qed

lemma comp_value_CNum: "comp_value v = CNum n \<Longrightarrow> n \<noteq> NaN"
  by (auto simp: comp_value_def Let_def isNaN_def split: if_splits)

lemma nan_undefined: "string_to_number ''undefined'' = NaN" by code_simp
lemma nan_NaN: "string_to_number ''NaN'' = NaN" by code_simp

lemma comp_value_CStr: "comp_value v = CStr s \<Longrightarrow> string_to_number s = NaN"
  by (cases v) (auto simp: comp_value_def Let_def isNaN_def nan_undefined nan_NaN split: if_splits)

lemma js_lt_asym: "js_lt a b \<Longrightarrow> \<not> js_lt b a"
  by (cases a; cases b) (auto dest: num_lt_asym str_lt_asym)

lemma js_lt_mixed:
  "string_to_number s = NaN \<Longrightarrow> \<not> js_lt (CNum n) (CStr s) \<and> \<not> js_lt (CStr s) (CNum n)"
  by (cases n) simp_all

lemma compare_rows_Desc: "compare_rows K Desc a b = - compare_rows K Asc a b"
  by (simp add: compare_rows_def Let_def)

lemma compare_rows_le:
  "compare_rows K Asc a b \<le> 0 \<longleftrightarrow> \<not> js_lt (comp_value (get b K)) (comp_value (get a K))"
  using js_lt_asym[of "comp_value (get a K)" "comp_value (get b K)"]
  by (auto simp: compare_rows_def Let_def)

lemma compare_rows_ge:
  "0 \<le> compare_rows K Asc a b \<longleftrightarrow> \<not> js_lt (comp_value (get a K)) (comp_value (get b K))"
  by (auto simp: compare_rows_def Let_def)

lemma js_lt_negtrans_num:
  assumes "is_number_comp (comp_value u)" "is_number_comp (comp_value v)" "is_number_comp (comp_value w)"
    and "\<not> js_lt (comp_value u) (comp_value v)" "\<not> js_lt (comp_value v) (comp_value w)"
  shows "\<not> js_lt (comp_value u) (comp_value w)"
proof -
  from assms(1,2,3) obtain a b c where e: "comp_value u = CNum a" "comp_value v = CNum b" "comp_value w = CNum c"
    by (cases "comp_value u"; cases "comp_value v"; cases "comp_value w") auto
  then have "a \<noteq> NaN" "b \<noteq> NaN" "c \<noteq> NaN" by (auto dest: comp_value_CNum)
  with assms(4,5) e num_lt_negtrans[of a b c] show ?thesis by simp
qed

lemma js_lt_negtrans_str:
  assumes "\<not> is_number_comp x" "\<not> is_number_comp y" "\<not> is_number_comp z"
    and "\<not> js_lt x y" "\<not> js_lt y z"
  shows "\<not> js_lt x z"
proof -
  from assms(1,2,3) obtain a b c where e: "x = CStr a" "y = CStr b" "z = CStr c"
    by (cases x; cases y; cases z) auto
  with assms(4,5) str_lt_negtrans[of a b c] show ?thesis by simp
qed

lemma js_lt_negtrans:
  assumes "same_kind K R" "a \<in> set R" "b \<in> set R" "c \<in> set R"
    and "\<not> js_lt (comp_value (get a K)) (comp_value (get b K))"
    and "\<not> js_lt (comp_value (get b K)) (comp_value (get c K))"
  shows "\<not> js_lt (comp_value (get a K)) (comp_value (get c K))"
  using assms js_lt_negtrans_num[of "get a K" "get b K" "get c K"]
    js_lt_negtrans_str[of "comp_value (get a K)" "comp_value (get b K)" "comp_value (get c K)"]
  by (auto simp: same_kind_def list_all_iff)

subsection \<open>The insertion sort\<close>

lemma sort_insert_mset: "mset (sort_insert cmp x ys) = add_mset x (mset ys)"
  by (induction ys) auto

lemma array_sort_mset: "mset (array_sort cmp xs) = mset xs"
  by (induction xs) (simp_all add: array_sort_def sort_insert_mset)

lemma array_sort_set: "set (array_sort cmp xs) = set xs"
  using array_sort_mset[of cmp xs] by (metis set_mset_mset)

lemma sort_insert_sorted:
  assumes anti: "\<And>y. y \<in> set ys \<Longrightarrow> 0 < cmp x y \<Longrightarrow> cmp y x \<le> 0"
    and trans: "\<And>y z. y \<in> set ys \<Longrightarrow> z \<in> set ys \<Longrightarrow> cmp x y \<le> 0 \<Longrightarrow> cmp y z \<le> 0 \<Longrightarrow> cmp x z \<le> 0"
    and "sorted_wrt (\<lambda>a b. cmp a b \<le> 0) ys"
  shows "sorted_wrt (\<lambda>a b. cmp a b \<le> 0) (sort_insert cmp x ys)"
  using assms
proof (induction ys)
  case Nil
  then show ?case by simp
next
  case (Cons y ys)
  from Cons.prems(3) have tail: "sorted_wrt (\<lambda>a b. cmp a b \<le> 0) ys"
    and head: "\<forall>z \<in> set ys. cmp y z \<le> 0" by simp_all
  show ?case
  proof (cases "0 < cmp x y")
    case True
    have ih: "sorted_wrt (\<lambda>a b. cmp a b \<le> 0) (sort_insert cmp x ys)"
    proof (rule Cons.IH)
      show "cmp y' x \<le> 0" if "y' \<in> set ys" "0 < cmp x y'" for y'
        using that Cons.prems(1)[of y'] by simp
      show "cmp x z \<le> 0" if "y' \<in> set ys" "z \<in> set ys" "cmp x y' \<le> 0" "cmp y' z \<le> 0" for y' z
        using that Cons.prems(2)[of y' z] by simp
      show "sorted_wrt (\<lambda>a b. cmp a b \<le> 0) ys" by (rule tail)
    qed
    have yx: "cmp y x \<le> 0" using True Cons.prems(1)[of y] by simp
    have "\<forall>z \<in> set (sort_insert cmp x ys). cmp y z \<le> 0"
    proof
      fix z assume "z \<in> set (sort_insert cmp x ys)"
      then have "z \<in># mset (sort_insert cmp x ys)" by simp
      then have "z = x \<or> z \<in> set ys" by (simp add: sort_insert_mset)
      then show "cmp y z \<le> 0" using yx head by blast
    qed
    with ih True show ?thesis by simp
  next
    case False
    then have xy: "cmp x y \<le> 0" by simp
    have "\<forall>z \<in> set ys. cmp x z \<le> 0"
    proof
      fix z assume z: "z \<in> set ys"
      with head have "cmp y z \<le> 0" by blast
      with Cons.prems(2)[of y z] z xy show "cmp x z \<le> 0" by simp
    qed
    with xy False head tail show ?thesis by simp
  qed
qed

lemma array_sort_sorted:
  "(\<forall>x \<in> set xs. \<forall>y \<in> set xs. 0 < cmp x y \<longrightarrow> cmp y x \<le> 0) \<Longrightarrow>
   (\<forall>x \<in> set xs. \<forall>y \<in> set xs. \<forall>z \<in> set xs. cmp x y \<le> 0 \<longrightarrow> cmp y z \<le> 0 \<longrightarrow> cmp x z \<le> 0) \<Longrightarrow>
   sorted_wrt (\<lambda>a b. cmp a b \<le> 0) (array_sort cmp xs)"
proof (induction xs)
  case Nil
  show ?case by (simp add: array_sort_def)
next
  case (Cons x xs)
  have s: "sorted_wrt (\<lambda>a b. cmp a b \<le> 0) (array_sort cmp xs)"
  proof (rule Cons.IH)
    show "\<forall>x \<in> set xs. \<forall>y \<in> set xs. 0 < cmp x y \<longrightarrow> cmp y x \<le> 0"
      using Cons.prems(1) by (meson list.set_intros(2))
    show "\<forall>x \<in> set xs. \<forall>y \<in> set xs. \<forall>z \<in> set xs. cmp x y \<le> 0 \<longrightarrow> cmp y z \<le> 0 \<longrightarrow> cmp x z \<le> 0"
      using Cons.prems(2) by (meson list.set_intros(2))
  qed
  have mem: "y \<in> set (x # xs)" if "y \<in> set (array_sort cmp xs)" for y
    using that by (simp add: array_sort_set)
  have x: "x \<in> set (x # xs)" by simp
  have "sorted_wrt (\<lambda>a b. cmp a b \<le> 0) (sort_insert cmp x (array_sort cmp xs))"
  proof (rule sort_insert_sorted)
    show "cmp y x \<le> 0" if "y \<in> set (array_sort cmp xs)" "0 < cmp x y" for y
      using Cons.prems(1) x mem[OF that(1)] that(2) by blast
    show "cmp x z \<le> 0"
      if "y \<in> set (array_sort cmp xs)" "z \<in> set (array_sort cmp xs)" "cmp x y \<le> 0" "cmp y z \<le> 0" for y z
      using Cons.prems(2) x mem[OF that(1)] mem[OF that(2)] that(3,4) by blast
    show "sorted_wrt (\<lambda>a b. cmp a b \<le> 0) (array_sort cmp xs)" by (rule s)
  qed
  then show ?case by (simp add: array_sort_def)
qed

section \<open>Sorting in both directions\<close>

lemma sort_step_mset: "mset (sort_step K D R) = mset R"
  by (simp add: sort_step_def array_sort_mset)

lemma compare_rows_pos:
  "0 < compare_rows K Asc a b \<longleftrightarrow>
   \<not> js_lt (comp_value (get a K)) (comp_value (get b K)) \<and> js_lt (comp_value (get b K)) (comp_value (get a K))"
  by (simp add: compare_rows_def Let_def)

lemma compare_rows_neg:
  "compare_rows K Asc a b < 0 \<longleftrightarrow> js_lt (comp_value (get a K)) (comp_value (get b K))"
  by (simp add: compare_rows_def Let_def)

lemma sort_step_Asc_sorted:
  assumes "same_kind K R"
  shows "sorted_wrt (\<lambda>a b. compare_rows K Asc a b \<le> 0) (sort_step K Asc R)"
  unfolding sort_step_def
proof (rule array_sort_sorted)
  show "\<forall>x \<in> set R. \<forall>y \<in> set R. 0 < compare_rows K Asc x y \<longrightarrow> compare_rows K Asc y x \<le> 0"
    by (simp add: compare_rows_pos compare_rows_le)
  show "\<forall>x \<in> set R. \<forall>y \<in> set R. \<forall>z \<in> set R.
          compare_rows K Asc x y \<le> 0 \<longrightarrow> compare_rows K Asc y z \<le> 0 \<longrightarrow> compare_rows K Asc x z \<le> 0"
    unfolding compare_rows_le using js_lt_negtrans[OF assms] by blast
qed

lemma sort_step_Desc_sorted:
  assumes "same_kind K R"
  shows "sorted_wrt (\<lambda>a b. 0 \<le> compare_rows K Asc a b) (sort_step K Desc R)"
proof -
  have "sorted_wrt (\<lambda>a b. compare_rows K Desc a b \<le> 0) (array_sort (compare_rows K Desc) R)"
  proof (rule array_sort_sorted)
    have "compare_rows K Asc x y < 0 \<longrightarrow> 0 \<le> compare_rows K Asc y x" for x y
      unfolding compare_rows_neg compare_rows_ge by (blast dest: js_lt_asym)
    then show "\<forall>x \<in> set R. \<forall>y \<in> set R. 0 < compare_rows K Desc x y \<longrightarrow> compare_rows K Desc y x \<le> 0"
      by (simp add: compare_rows_Desc)
    have "\<forall>x \<in> set R. \<forall>y \<in> set R. \<forall>z \<in> set R.
          0 \<le> compare_rows K Asc x y \<longrightarrow> 0 \<le> compare_rows K Asc y z \<longrightarrow> 0 \<le> compare_rows K Asc x z"
      unfolding compare_rows_ge using js_lt_negtrans[OF assms] by blast
    then show "\<forall>x \<in> set R. \<forall>y \<in> set R. \<forall>z \<in> set R.
          compare_rows K Desc x y \<le> 0 \<longrightarrow> compare_rows K Desc y z \<le> 0 \<longrightarrow> compare_rows K Desc x z \<le> 0"
      by (simp only: compare_rows_Desc neg_le_0_iff_le)
  qed
  then show ?thesis by (simp only: sort_step_def compare_rows_Desc neg_le_0_iff_le)
qed

lemma sort_pair_tie: "cmp a b = 0 \<Longrightarrow> array_sort cmp [a, b] = [a, b]"
  by (simp add: array_sort_def)

lemma compare_rows_mixed:
  assumes "comp_value (get a K) = CNum n" "comp_value (get b K) = CStr s"
  shows "compare_rows K D a b = 0" "compare_rows K D b a = 0"
  using js_lt_mixed[OF comp_value_CStr[OF assms(2)], of n] assms
  by (simp_all add: compare_rows_def)

text \<open>
  Claim C4, as the code has it.  The direction flips only the sign of the comparator.
  Sorting permutes the rows.  When the comparison values of the rows under the sort key
  are all Numbers or all strings, the ascending result has no row before one that
  compares strictly smaller, and the descending result has no row before one that
  compares strictly greater: every pair that the comparator orders strictly stands in
  opposite order in the two results.
\<close>

theorem sort_direction_reverses:
  "(\<forall>a b. compare_rows K Desc a b = - compare_rows K Asc a b) \<and>
   mset (sort_step K Asc R) = mset R \<and> mset (sort_step K Desc R) = mset R \<and>
   (same_kind K R \<longrightarrow>
      sorted_wrt (\<lambda>a b. compare_rows K Asc a b \<le> 0) (sort_step K Asc R) \<and>
      sorted_wrt (\<lambda>a b. 0 \<le> compare_rows K Asc a b) (sort_step K Desc R))"
  using compare_rows_Desc sort_step_mset sort_step_Asc_sorted sort_step_Desc_sorted by blast

lemma cmp_price_1: "compare_rows ''Shares'' Asc [''Shares'' \<mapsto> JNum (Fin 30)] [''Shares'' \<mapsto> JStr ''7''] = 1"
  by code_simp
lemma cmp_price_2: "compare_rows ''Shares'' Asc [''Shares'' \<mapsto> JStr ''7''] [''Shares'' \<mapsto> JNum (Fin 30)] = - 1"
  by code_simp
lemma same_kind_price: "same_kind ''Shares'' [[''Shares'' \<mapsto> JNum (Fin 30)], [''Shares'' \<mapsto> JStr ''7'']]"
  by code_simp

theorem sort_direction_reverses_witness:
  "same_kind ''Shares'' [[''Shares'' \<mapsto> JNum (Fin 30)], [''Shares'' \<mapsto> JStr ''7'']] \<and>
   sorted_wrt (\<lambda>a b. compare_rows ''Shares'' Asc a b \<le> 0)
     (sort_step ''Shares'' Asc [[''Shares'' \<mapsto> JNum (Fin 30)], [''Shares'' \<mapsto> JStr ''7'']]) \<and>
   sorted_wrt (\<lambda>a b. 0 \<le> compare_rows ''Shares'' Asc a b)
     (sort_step ''Shares'' Desc [[''Shares'' \<mapsto> JNum (Fin 30)], [''Shares'' \<mapsto> JStr ''7'']]) \<and>
   sort_step ''Shares'' Asc [[''Shares'' \<mapsto> JNum (Fin 30)], [''Shares'' \<mapsto> JStr ''7'']] =
     [[''Shares'' \<mapsto> JStr ''7''], [''Shares'' \<mapsto> JNum (Fin 30)]] \<and>
   sort_step ''Shares'' Desc [[''Shares'' \<mapsto> JNum (Fin 30)], [''Shares'' \<mapsto> JStr ''7'']] =
     [[''Shares'' \<mapsto> JNum (Fin 30)], [''Shares'' \<mapsto> JStr ''7'']]"
proof -
  have "sort_step ''Shares'' Asc [[''Shares'' \<mapsto> JNum (Fin 30)], [''Shares'' \<mapsto> JStr ''7'']] =
     [[''Shares'' \<mapsto> JStr ''7''], [''Shares'' \<mapsto> JNum (Fin 30)]]"
    by (simp add: sort_step_def array_sort_def cmp_price_1)
  moreover have "sort_step ''Shares'' Desc [[''Shares'' \<mapsto> JNum (Fin 30)], [''Shares'' \<mapsto> JStr ''7'']] =
     [[''Shares'' \<mapsto> JNum (Fin 30)], [''Shares'' \<mapsto> JStr ''7'']]"
    by (simp add: sort_step_def array_sort_def compare_rows_Desc cmp_price_1)
  ultimately show ?thesis
    using sort_direction_reverses[of "''Shares''" "[[''Shares'' \<mapsto> JNum (Fin 30)], [''Shares'' \<mapsto> JStr ''7'']]"]
      same_kind_price by simp
qed

lemma comp_1: "comp_value (get [''Shares'' \<mapsto> JNum (Fin 1)] ''Shares'') = CNum (Fin 1)" by code_simp
lemma comp_x: "comp_value (get [''Shares'' \<mapsto> JStr ''x''] ''Shares'') = CStr ''x''" by code_simp

theorem sort_mixed_pair_counterexample:
  "comp_value (get [''Shares'' \<mapsto> JNum (Fin 1)] ''Shares'') \<noteq> comp_value (get [''Shares'' \<mapsto> JStr ''x''] ''Shares'') \<and>
   sort_step ''Shares'' Asc [[''Shares'' \<mapsto> JNum (Fin 1)], [''Shares'' \<mapsto> JStr ''x'']] =
     [[''Shares'' \<mapsto> JNum (Fin 1)], [''Shares'' \<mapsto> JStr ''x'']] \<and>
   sort_step ''Shares'' Desc [[''Shares'' \<mapsto> JNum (Fin 1)], [''Shares'' \<mapsto> JStr ''x'']] =
     [[''Shares'' \<mapsto> JNum (Fin 1)], [''Shares'' \<mapsto> JStr ''x'']]"
  using compare_rows_mixed(1)[OF comp_1 comp_x]
  by (simp add: comp_1 comp_x sort_step_def sort_pair_tie)



section \<open>Exceptions and the store\<close>




text \<open>
  Claim C7.  Running the memo on the array behind \<open>rows\<close> leaves that array, and every
  other array of the store, as it was, whether the memo returns or throws.  When it
  returns, the result is the reference of an array that did not exist before, and that
  array holds the filtered and sorted rows.
\<close>

theorem filteredSorted_store_frame:
  "arrays s a = Some R \<and> dom (arrays s) \<subseteq> {..<next_ref s} \<longrightarrow>
   (case filteredSorted_store s a Q K D of (res, s') \<Rightarrow>
      arrays s' a = Some R \<and>
      (\<forall>b \<in> dom (arrays s). arrays s' b = arrays s b) \<and>
      (case res of
         Inl e \<Rightarrow> filteredSorted R Q K D = Inl e
       | Inr out \<Rightarrow> out \<notin> dom (arrays s) \<and> out \<noteq> a \<and>
                    (\<exists>v. filteredSorted R Q K D = Inr v \<and> arrays s' out = Some v)))"
proof
  assume h: "arrays s a = Some R \<and> dom (arrays s) \<subseteq> {..<next_ref s}"
  then have d: "deref s a = R" by (simp add: deref_def)
  from h have n0: "next_ref s \<notin> dom (arrays s)" and n1: "Suc (next_ref s) \<notin> dom (arrays s)"
    by auto
  from h have "a \<in> dom (arrays s)" by auto
  with n0 n1 have na: "a \<noteq> next_ref s" "a \<noteq> Suc (next_ref s)" by auto
  have fresh: "\<forall>b \<in> dom (arrays s). b \<noteq> next_ref s \<and> b \<noteq> Suc (next_ref s)"
    using n0 n1 by auto
  show "case filteredSorted_store s a Q K D of (res, s') \<Rightarrow>
      arrays s' a = Some R \<and>
      (\<forall>b \<in> dom (arrays s). arrays s' b = arrays s b) \<and>
      (case res of
         Inl e \<Rightarrow> filteredSorted R Q K D = Inl e
       | Inr out \<Rightarrow> out \<notin> dom (arrays s) \<and> out \<noteq> a \<and>
                    (\<exists>v. filteredSorted R Q K D = Inr v \<and> arrays s' out = Some v))"
  proof (cases "filter_step R Q")
    case (Inl e)
    then show ?thesis using h by (simp add: filteredSorted_store_eq filteredSorted_eq d)
  next
    case (Inr out)
    then show ?thesis using h na n0 n1 fresh
      by (simp add: filteredSorted_store_eq filteredSorted_eq d)
  qed
qed

theorem filteredSorted_store_frame_witness:
  "arrays \<lparr>arrays = [0 \<mapsto> [[''symbol'' \<mapsto> JStr ''BBB''], [''symbol'' \<mapsto> JStr ''AAA'']]], next_ref = 1\<rparr> 0 =
      Some [[''symbol'' \<mapsto> JStr ''BBB''], [''symbol'' \<mapsto> JStr ''AAA'']] \<and>
   (case filteredSorted_store
           \<lparr>arrays = [0 \<mapsto> [[''symbol'' \<mapsto> JStr ''BBB''], [''symbol'' \<mapsto> JStr ''AAA'']]], next_ref = 1\<rparr>
           0 [] ''symbol'' Asc of
      (res, s') \<Rightarrow>
        arrays s' 0 = Some [[''symbol'' \<mapsto> JStr ''BBB''], [''symbol'' \<mapsto> JStr ''AAA'']] \<and>
        (case res of
           Inl e \<Rightarrow> filteredSorted [[''symbol'' \<mapsto> JStr ''BBB''], [''symbol'' \<mapsto> JStr ''AAA'']] [] ''symbol'' Asc = Inl e
         | Inr out \<Rightarrow> out \<noteq> 0 \<and>
             (\<exists>v. filteredSorted [[''symbol'' \<mapsto> JStr ''BBB''], [''symbol'' \<mapsto> JStr ''AAA'']] [] ''symbol'' Asc = Inr v \<and>
                  arrays s' out = Some v)))"
proof -
  let ?R = "[[''symbol'' \<mapsto> JStr ''BBB''], [''symbol'' \<mapsto> JStr ''AAA'']] :: row list"
  let ?s = "\<lparr>arrays = [0 \<mapsto> ?R], next_ref = 1\<rparr>"
  have h: "arrays ?s 0 = Some ?R \<and> dom (arrays ?s) \<subseteq> {..<next_ref ?s}" by simp
  have "case filteredSorted_store ?s 0 [] ''symbol'' Asc of (res, s') \<Rightarrow>
      arrays s' 0 = Some ?R \<and>
      (\<forall>b \<in> dom (arrays ?s). arrays s' b = arrays ?s b) \<and>
      (case res of
         Inl e \<Rightarrow> filteredSorted ?R [] ''symbol'' Asc = Inl e
       | Inr out \<Rightarrow> out \<notin> dom (arrays ?s) \<and> out \<noteq> 0 \<and>
                    (\<exists>v. filteredSorted ?R [] ''symbol'' Asc = Inr v \<and> arrays s' out = Some v))"
    by (rule mp[OF filteredSorted_store_frame h])
  then show ?thesis using h by (auto split: prod.splits sum.splits)
qed

lemma cmp_symbols: "compare_rows ''symbol'' Asc [''symbol'' \<mapsto> JStr ''BBB''] [''symbol'' \<mapsto> JStr ''AAA''] = 1"
  by code_simp

lemma sorted_copy_example:
  "filteredSorted [[''symbol'' \<mapsto> JStr ''BBB''], [''symbol'' \<mapsto> JStr ''AAA'']] [] ''symbol'' Asc =
     Inr [[''symbol'' \<mapsto> JStr ''AAA''], [''symbol'' \<mapsto> JStr ''BBB'']]"
proof -
  have "toLowerCase (trim []) = []" by (simp add: toLowerCase_def trim_def)
  then show ?thesis
    by (simp add: filteredSorted_eq filter_step_blank sort_step_def array_sort_def cmp_symbols)
qed

section \<open>The anchor scroll\<close>

lemma header_0_15: "''0.15'' \<in> set delta_keys"
  by (simp add: delta_keys_eq)












lemma sticky_total: "STICKY_TOTAL = 177"
  by (simp add: STICKY_TOTAL_def W_SYMBOL_def W_UNDER_def W_SHARES_def)


lemma run_example:
  "scrolls (run 500 [QueryInput ''a'', FetchSettled (Some [[''symbol'' \<mapsto> JStr ''AAA'']]), HeaderClick ''Shares'']) = [315]"
  by (simp add: run_def step_def handle_def toggleSort_def mount_def after_render_def auto_scroll_def
      header_0_15 sticky_total)


section \<open>Running sums\<close>

lemma dbl_grid: "grid_ok (dbl q)"
proof (cases "q = 0")
  case True
  then show ?thesis by (simp add: dbl_def on_grid_0)
next
  case False
  have "on_grid (of_int m * pow2 (max (ilog2 q) (- 1022) - 52))" for m
    by (rule on_grid_scaled) simp
  then show ?thesis using False by (simp add: dbl_def Let_def on_grid_0)
qed

lemma dbl_nonzero:
  assumes "on_grid q" "q \<noteq> 0"
  shows "dbl q \<noteq> NegZero"
proof -
  define e where "e = max (ilog2 q) (- 1022)"
  have u: "pow2 (e - 52) \<le> \<bar>q\<bar>"
  proof (cases "- 1022 \<le> ilog2 q")
    case True
    then have "e = ilog2 q" by (simp add: e_def)
    moreover have "pow2 (ilog2 q - 52) \<le> pow2 (ilog2 q)" by (rule pow2_mono) simp
    ultimately show ?thesis using ilog2_lower[OF assms(2)] by simp
  next
    case False
    then have "e = - 1022" by (simp add: e_def)
    then show ?thesis using on_grid_abs_ge[OF assms] by simp
  qed
  have "1 \<le> \<bar>q\<bar> / pow2 (e - 52)" using u pow2_pos[of "e - 52"] by (simp add: pos_le_divide_eq)
  then have "1 \<le> \<bar>q / pow2 (e - 52)\<bar>" using pow2_pos[of "e - 52"] by (simp add: abs_divide)
  then have "round_half_even (q / pow2 (e - 52)) \<noteq> 0" by (rule round_half_even_nonzero)
  then show ?thesis using assms(2) by (simp add: dbl_def Let_def e_def)
qed

lemma neg_grid: "grid_ok n \<Longrightarrow> grid_ok (neg n)"
  by (cases n) (simp_all add: on_grid_minus on_grid_0)

lemma radix_literal_grid: "grid_ok (radix_literal b ds)"
  by (simp add: radix_literal_def dbl_grid)

lemma unsigned_decimal_grid: "grid_ok (unsigned_decimal s)"
  by (simp add: unsigned_decimal_def Let_def dbl_grid split: option.splits)

lemma string_to_number_grid: "grid_ok (string_to_number s)"
  by (simp add: string_to_number_def radix_literal_grid unsigned_decimal_grid neg_grid on_grid_0
      split: list.splits)

lemma to_number_grid: "value_ok v \<Longrightarrow> grid_ok (to_number v)"
proof (cases v)
  case (JNum n)
  assume "value_ok v"
  with JNum show ?thesis by (cases n) (simp_all add: is_double_on_grid)
next
  case (JBool b)
  have "on_grid 1" by (simp add: on_grid_def)
  with JBool show ?thesis by (simp add: on_grid_0)
qed (simp_all add: on_grid_0 string_to_number_grid)

lemma net_value_grid: "value_ok (get r (k @ ''N'')) \<Longrightarrow> grid_ok (net_value r k)"
  using to_number_grid[of "get r (k @ ''N'')"]
  by (simp add: net_value_def nullish_def on_grid_0)

lemma js_add_ok:
  assumes "sum_ok a" "grid_ok v"
  shows "sum_ok (js_add a v)"
proof (cases a)
  case (Fin x)
  with assms(1) have x: "on_grid x" by (simp add: sum_ok_def)
  show ?thesis
  proof (cases v)
    case v: (Fin y)
    with assms(2) have y: "on_grid y" by simp
    show ?thesis
    proof (cases "x = 0 \<or> y = 0 \<or> x + y = 0")
      case True
      then show ?thesis using Fin v x y by (auto simp: sum_ok_def dbl_def on_grid_0)
    next
      case False
      then have "dbl (x + y) \<noteq> NegZero" using dbl_nonzero[OF on_grid_add[OF x y]] by simp
      then show ?thesis using Fin v False dbl_grid[of "x + y"] by (simp add: sum_ok_def)
    qed
  qed (use Fin x in \<open>simp_all add: sum_ok_def\<close>)
next
  case NegZero
  with assms(1) show ?thesis by (simp add: sum_ok_def)
qed (cases v; simp add: sum_ok_def)+

lemma accumulate_ok: "sum_ok a \<Longrightarrow> grid_ok v \<Longrightarrow> sum_ok (accumulate a v)"
  by (simp add: accumulate_def js_add_ok)

lemma accumulate_zero: "sum_ok a \<Longrightarrow> accumulate a (Fin 0) = a"
  by (cases a) (simp_all add: accumulate_def isNaN_def sum_ok_def)

lemma accumulate_nan: "accumulate a NaN = a"
  by (simp add: accumulate_def isNaN_def)

lemma foldl_accumulate_ok:
  "sum_ok a \<Longrightarrow> \<forall>r \<in> set A. value_ok (get r (k @ ''N'')) \<Longrightarrow>
   sum_ok (foldl (\<lambda>acc r. accumulate acc (net_value r k)) a A)"
  by (induction A arbitrary: a) (simp_all add: accumulate_ok net_value_grid)

lemma net_sum_ok: "\<forall>r \<in> set A. value_ok (get r (k @ ''N'')) \<Longrightarrow> sum_ok (net_sum A k)"
  unfolding net_sum_def by (rule foldl_accumulate_ok) (simp_all add: sum_ok_def on_grid_0)

lemma net_sum_append:
  "net_sum (A @ B) k = foldl (\<lambda>acc r. accumulate acc (net_value r k)) (net_sum A k) B"
  by (simp add: net_sum_def)

lemma net_value_absent:
  "get r (k @ ''N'') = JUndefined \<or> get r (k @ ''N'') = JNull \<Longrightarrow> net_value r k = Fin 0"
  by (auto simp: net_value_def nullish_def)

lemma net_value_failed:
  "get r (k @ ''N'') \<noteq> JUndefined \<Longrightarrow> get r (k @ ''N'') \<noteq> JNull \<Longrightarrow>
   net_value r k = to_number (get r (k @ ''N''))"
  by (simp add: net_value_def nullish_def)

lemma net_sum_skip:
  assumes "\<forall>x \<in> set A. value_ok (get x (k @ ''N''))"
    and "get r (k @ ''N'') = JUndefined \<or> get r (k @ ''N'') = JNull \<or> isNaN (to_number (get r (k @ ''N'')))"
  shows "net_sum (A @ r # B) k = net_sum (A @ B) k"
proof -
  have "net_value r k = Fin 0 \<or> net_value r k = NaN"
  proof (cases "get r (k @ ''N'') = JUndefined \<or> get r (k @ ''N'') = JNull")
    case True
    then show ?thesis by (simp add: net_value_absent)
  next
    case False
    with assms(2) have "to_number (get r (k @ ''N'')) = NaN" by (simp add: isNaN_def)
    with False show ?thesis by (simp add: net_value_failed)
  qed
  then have "accumulate (net_sum A k) (net_value r k) = net_sum A k"
    using accumulate_zero[OF net_sum_ok[OF assms(1)]] accumulate_nan by auto
  then show ?thesis by (simp add: net_sum_def)
qed

section \<open>The totals\<close>

lemma netTotals_empty: "k \<in> set delta_keys \<Longrightarrow> netTotalsByDelta [] k = Some (Fin 0)"
  by (simp add: netTotals_key net_sum_def)

lemma netTotals_card: "card (dom (netTotalsByDelta V)) = 10"
  using distinct_card[OF delta_keys_distinct] by (simp add: netTotals_dom delta_keys_length)

lemma netTotals_skip:
  assumes "k \<in> set delta_keys" "\<forall>x \<in> set A. value_ok (get x (k @ ''N''))"
    and "get r (k @ ''N'') = JUndefined \<or> get r (k @ ''N'') = JNull \<or> isNaN (to_number (get r (k @ ''N'')))"
  shows "netTotalsByDelta (A @ r # B) k = netTotalsByDelta (A @ B) k"
  using net_sum_skip[OF assms(2,3)] by (simp add: netTotals_key[OF assms(1)])

text \<open>
  Claim C3.  For every visible row set the totals have exactly the 10 keys \<open>0.05\<close>,
  \<open>0.10\<close>, ..., \<open>0.50\<close>.  Every sum starts at zero, so the empty row set gives zero
  for every key.  A row whose net field for a step is absent, \<open>null\<close> or fails the
  conversion to a Number contributes nothing: the sum of that step is the same with and
  without the row, wherever the row stands (the numbers in the net fields of the rows
  before it being binary64 values).
\<close>

theorem netTotals_keys_and_zero:
  "dom (netTotalsByDelta V) = set delta_keys \<and>
   delta_keys = [''0.05'', ''0.10'', ''0.15'', ''0.20'', ''0.25'', ''0.30'', ''0.35'', ''0.40'', ''0.45'', ''0.50''] \<and>
   card (dom (netTotalsByDelta V)) = 10 \<and>
   (\<forall>k \<in> set delta_keys. init_totals k = Some (Fin 0) \<and> netTotalsByDelta [] k = Some (Fin 0)) \<and>
   (\<forall>k \<in> set delta_keys.
      (\<forall>x \<in> set A. value_ok (get x (k @ ''N''))) \<and>
      (get r (k @ ''N'') = JUndefined \<or> get r (k @ ''N'') = JNull \<or>
       isNaN (to_number (get r (k @ ''N'')))) \<longrightarrow>
      netTotalsByDelta (A @ r # B) k = netTotalsByDelta (A @ B) k)"
proof (intro conjI ballI impI)
  show "dom (netTotalsByDelta V) = set delta_keys" by (rule netTotals_dom)
  show "delta_keys = [''0.05'', ''0.10'', ''0.15'', ''0.20'', ''0.25'', ''0.30'', ''0.35'', ''0.40'', ''0.45'', ''0.50'']"
    by (rule delta_keys_eq)
  show "card (dom (netTotalsByDelta V)) = 10" by (rule netTotals_card)
next
  fix k assume "k \<in> set delta_keys"
  then show "init_totals k = Some (Fin 0)" by (simp add: init_totals_apply)
next
  fix k assume "k \<in> set delta_keys"
  then show "netTotalsByDelta [] k = Some (Fin 0)" by (rule netTotals_empty)
next
  fix k
  assume k: "k \<in> set delta_keys"
    and h: "(\<forall>x \<in> set A. value_ok (get x (k @ ''N''))) \<and>
      (get r (k @ ''N'') = JUndefined \<or> get r (k @ ''N'') = JNull \<or>
       isNaN (to_number (get r (k @ ''N''))))"
  from h have 1: "\<forall>x \<in> set A. value_ok (get x (k @ ''N''))" by (rule conjunct1)
  from h have 2: "get r (k @ ''N'') = JUndefined \<or> get r (k @ ''N'') = JNull \<or>
       isNaN (to_number (get r (k @ ''N'')))" by (rule conjunct2)
  show "netTotalsByDelta (A @ r # B) k = netTotalsByDelta (A @ B) k"
    by (rule netTotals_skip[OF k 1 2])
qed

lemma ok_10_5: "value_ok (JNum (dbl (105 / 10)))" by code_simp
lemma nan_na: "isNaN (to_number (JStr ''n/a''))" by code_simp

theorem netTotals_keys_and_zero_witness:
  "netTotalsByDelta ([[''symbol'' \<mapsto> JStr ''AAA'', ''0.15N'' \<mapsto> JNum (dbl (105 / 10))]] @
                     [''symbol'' \<mapsto> JStr ''CCC'', ''0.15N'' \<mapsto> JStr ''n/a''] #
                     [[''symbol'' \<mapsto> JStr ''BBB'', ''0.15N'' \<mapsto> JNum (Fin 25)]]) ''0.15'' =
   netTotalsByDelta ([[''symbol'' \<mapsto> JStr ''AAA'', ''0.15N'' \<mapsto> JNum (dbl (105 / 10))]] @
                     [[''symbol'' \<mapsto> JStr ''BBB'', ''0.15N'' \<mapsto> JNum (Fin 25)]]) ''0.15'' \<and>
   netTotalsByDelta ([[''symbol'' \<mapsto> JStr ''AAA'', ''0.15N'' \<mapsto> JNum (dbl (105 / 10))]] @
                     [''symbol'' \<mapsto> JStr ''DDD''] # []) ''0.15'' =
   netTotalsByDelta ([[''symbol'' \<mapsto> JStr ''AAA'', ''0.15N'' \<mapsto> JNum (dbl (105 / 10))]] @ []) ''0.15'' \<and>
   netTotalsByDelta [] ''0.15'' = Some (Fin 0)"
proof -
  let ?A = "[[''symbol'' \<mapsto> JStr ''AAA'', ''0.15N'' \<mapsto> JNum (dbl (105 / 10))]] :: row list"
  have k: "''0.15'' \<in> set delta_keys" by (simp add: delta_keys_eq)
  have okA: "\<forall>x \<in> set ?A. value_ok (get x (''0.15'' @ ''N''))"
    using ok_10_5 by (simp add: get_def)
  have c: "get [''symbol'' \<mapsto> JStr ''CCC'', ''0.15N'' \<mapsto> JStr ''n/a''] (''0.15'' @ ''N'') = JStr ''n/a''"
    by (simp add: get_def)
  have d: "get [''symbol'' \<mapsto> JStr ''DDD''] (''0.15'' @ ''N'') = JUndefined"
    by (simp add: get_def)
  note t1 = netTotals_keys_and_zero[of _ ?A "[''symbol'' \<mapsto> JStr ''CCC'', ''0.15N'' \<mapsto> JStr ''n/a'']"
      "[[''symbol'' \<mapsto> JStr ''BBB'', ''0.15N'' \<mapsto> JNum (Fin 25)]]"]
  note t2 = netTotals_keys_and_zero[of _ ?A "[''symbol'' \<mapsto> JStr ''DDD'']" "[]"]
  from t1 k okA c nan_na
  have 1: "netTotalsByDelta (?A @ [''symbol'' \<mapsto> JStr ''CCC'', ''0.15N'' \<mapsto> JStr ''n/a''] #
                     [[''symbol'' \<mapsto> JStr ''BBB'', ''0.15N'' \<mapsto> JNum (Fin 25)]]) ''0.15'' =
      netTotalsByDelta (?A @ [[''symbol'' \<mapsto> JStr ''BBB'', ''0.15N'' \<mapsto> JNum (Fin 25)]]) ''0.15''"
    by (metis (no_types, lifting))
  from t2 k okA d
  have 2: "netTotalsByDelta (?A @ [''symbol'' \<mapsto> JStr ''DDD''] # []) ''0.15'' = netTotalsByDelta (?A @ []) ''0.15''"
    by (metis (no_types, lifting))
  from t2 k have 3: "netTotalsByDelta [] ''0.15'' = Some (Fin 0)" by blast
  from 1 2 3 show ?thesis by (simp only:) 
qed

end
